theory Spec2Isabelle
  imports
    Main
    "HOL-Library.AList"
    "HOL-Library.Char_ord"
    "HOL-Library.List_Lexorder"
    "HOL-Library.Multiset"
begin

section \<open>JavaScript values and \<open>JSON.stringify\<close>\<close>

text \<open>
  The application state is a JSON-like JavaScript value. An object is kept as the list of
  its own properties in enumeration order; reading a property that is absent gives
  \<open>Undefined\<close>. Numbers are the integer-valued ones (\<open>order\<close>, goal values).
\<close>

datatype jsval =
    Undefined
  | Null
  | Bool bool
  | Num int
  | Str string
  | Arr "jsval list"
  | Obj "(string \<times> jsval) list"

fun truthy :: "jsval \<Rightarrow> bool" where
  "truthy Undefined = False"
| "truthy Null = False"
| "truthy (Bool b) = b"
| "truthy (Num n) = (n \<noteq> 0)"
| "truthy (Str s) = (s \<noteq> [])"
| "truthy (Arr vs) = True"
| "truthy (Obj kvs) = True"

text \<open>\<open>a || b\<close>\<close>

definition js_or :: "jsval \<Rightarrow> jsval \<Rightarrow> jsval" where
  "js_or a b = (if truthy a then a else b)"

definition digit_char :: "nat \<Rightarrow> char" where
  "digit_char n = char_of (48 + n)"

fun show_nat :: "nat \<Rightarrow> string" where
  "show_nat n = (if n < 10 then [digit_char n] else show_nat (n div 10) @ [digit_char (n mod 10)])"

declare show_nat.simps [simp del]

definition show_int :: "int \<Rightarrow> string" where
  "show_int i = (if i < 0 then CHR ''-'' # show_nat (nat (- i)) else show_nat (nat i))"

definition hex_char :: "nat \<Rightarrow> char" where
  "hex_char n = (if n < 10 then char_of (48 + n) else char_of (87 + n))"

text \<open>The escapes of \<open>JSON.stringify\<close> for one character of a string.\<close>

definition escape_char :: "char \<Rightarrow> string" where
  "escape_char c =
     (if c = CHR 0x22 then [CHR 0x5C, CHR 0x22]
      else if c = CHR 0x5C then [CHR 0x5C, CHR 0x5C]
      else if c = CHR 0x08 then [CHR 0x5C, CHR ''b'']
      else if c = CHR 0x0C then [CHR 0x5C, CHR ''f'']
      else if c = CHR 0x0A then [CHR 0x5C, CHR ''n'']
      else if c = CHR 0x0D then [CHR 0x5C, CHR ''r'']
      else if c = CHR 0x09 then [CHR 0x5C, CHR ''t'']
      else if (of_char c :: nat) < 32
        then [CHR 0x5C, CHR ''u'', CHR ''0'', CHR ''0'',
              hex_char (of_char c div 16), hex_char (of_char c mod 16)]
      else [c])"

definition quote :: "string \<Rightarrow> string" where
  "quote s = CHR 0x22 # concat (map escape_char s) @ [CHR 0x22]"

fun join :: "string \<Rightarrow> string list \<Rightarrow> string" where
  "join sep [] = []"
| "join sep [x] = x"
| "join sep (x # y # ys) = x @ sep @ join sep (y # ys)"

text \<open>
  \<open>JSON.stringify(v)\<close>: \<open>None\<close> is the result \<open>undefined\<close> (for \<open>undefined\<close> itself).
  An \<open>undefined\<close> array element is written \<open>null\<close>, a property whose value is
  \<open>undefined\<close> is left out, and properties are written in the object's own order.
\<close>

primrec JSON_stringify :: "jsval \<Rightarrow> string option" where
  "JSON_stringify Undefined = None"
| "JSON_stringify Null = Some ''null''"
| "JSON_stringify (Bool b) = Some (if b then ''true'' else ''false'')"
| "JSON_stringify (Num n) = Some (show_int n)"
| "JSON_stringify (Str s) = Some (quote s)"
| "JSON_stringify (Arr vs) =
     Some (''['' @ join '','' (map (\<lambda>r. case r of None \<Rightarrow> ''null'' | Some s \<Rightarrow> s)
                                 (map JSON_stringify vs)) @ '']'')"
| "JSON_stringify (Obj kvs) =
     Some (''{'' @ join '',''
        (concat (map (\<lambda>(k, r). case r of None \<Rightarrow> [] | Some s \<Rightarrow> [quote k @ '':'' @ s])
                     (map (map_prod id JSON_stringify) kvs))) @ ''}'')"

text \<open>
  Structural (deep value) equality, in which the order of an object's keys does not
  count: both values are brought to the form whose objects list their keys in ascending
  order, and those forms are compared.
\<close>

primrec canon :: "jsval \<Rightarrow> jsval" where
  "canon Undefined = Undefined"
| "canon Null = Null"
| "canon (Bool b) = Bool b"
| "canon (Num n) = Num n"
| "canon (Str s) = Str s"
| "canon (Arr vs) = Arr (map canon vs)"
| "canon (Obj kvs) = Obj (sort_key fst (AList.clearjunk (map (map_prod id canon) kvs)))"

definition deep_equal :: "jsval \<Rightarrow> jsval \<Rightarrow> bool" where
  "deep_equal a b = (canon a = canon b)"

section \<open>The undoable state store (\<open>useUndoableState\<close>)\<close>

record store =
  history :: "jsval list"
  currentIndex :: nat

text \<open>\<open>setState\<close> takes a value or an updater function (\<open>typeof newState === 'function'\<close>).\<close>

datatype update = Value jsval | Updater "jsval \<Rightarrow> jsval"

definition useUndoableState :: "jsval \<Rightarrow> store" where
  "useUndoableState initialState = \<lparr>history = [initialState], currentIndex = 0\<rparr>"

text \<open>\<open>history[currentIndex]\<close>; out of range JavaScript reads \<open>undefined\<close>.\<close>

definition state :: "store \<Rightarrow> jsval" where
  "state h = (if currentIndex h < length (history h) then history h ! currentIndex h else Undefined)"

definition resolvedState :: "store \<Rightarrow> update \<Rightarrow> jsval" where
  "resolvedState h newState = (case newState of Updater f \<Rightarrow> f (state h) | Value v \<Rightarrow> v)"

definition setState :: "store \<Rightarrow> update \<Rightarrow> store" where
  "setState h newState =
     (let resolved = resolvedState h newState in
      if JSON_stringify resolved = JSON_stringify (state h) then h
      else
        let newHistory = take (currentIndex h + 1) (history h) @ [resolved] in
        if length newHistory > 50
        then \<lparr>history = tl newHistory, currentIndex = length (tl newHistory) - 1\<rparr>
        else \<lparr>history = newHistory, currentIndex = length newHistory - 1\<rparr>)"

definition undo :: "store \<Rightarrow> store" where
  "undo h = (if currentIndex h > 0 then h\<lparr>currentIndex := currentIndex h - 1\<rparr> else h)"

definition redo :: "store \<Rightarrow> store" where
  "redo h =
     (if int (currentIndex h) < int (length (history h)) - 1
      then h\<lparr>currentIndex := currentIndex h + 1\<rparr> else h)"

definition resetState :: "store \<Rightarrow> jsval \<Rightarrow> store" where
  "resetState h newState = \<lparr>history = [newState], currentIndex = 0\<rparr>"

definition canUndo :: "store \<Rightarrow> bool" where
  "canUndo h = (currentIndex h > 0)"

definition canRedo :: "store \<Rightarrow> bool" where
  "canRedo h = (int (currentIndex h) < int (length (history h)) - 1)"

text \<open>A call of \<open>setState\<close> is accepted when it is not dropped by the equality test.\<close>

definition accepted :: "store \<Rightarrow> update \<Rightarrow> bool" where
  "accepted h newState = (JSON_stringify (resolvedState h newState) \<noteq> JSON_stringify (state h))"

text \<open>The calls a client can make, and a run of them from a store.\<close>

datatype call = SetState update | Undo | Redo | ResetState jsval

fun perform :: "store \<Rightarrow> call \<Rightarrow> store" where
  "perform h (SetState u) = setState h u"
| "perform h Undo = undo h"
| "perform h Redo = redo h"
| "perform h (ResetState s) = resetState h s"

definition run :: "store \<Rightarrow> call list \<Rightarrow> store" where
  "run h cs = foldl perform h cs"

text \<open>The invariant of the store: the cursor is inside the history, of at most 50 snapshots.\<close>

definition store_ok :: "store \<Rightarrow> bool" where
  "store_ok h = (currentIndex h < length (history h) \<and> length (history h) \<le> 50)"

section \<open>The data model (\<open>types.ts\<close>)\<close>

datatype TaskStatus = ToDo | InProgress | Done

datatype TaskPriority = Low | Medium | High

datatype ProjectRole = Owner | Collaborator | Viewer

record Member =
  id' :: string
  name :: string
  role :: ProjectRole
  avatarUrl :: string

record Goal =
  id' :: string
  title :: string
  targetValue :: int
  currentValue :: int
  unit :: string

record Link =
  id' :: string
  title :: string
  url :: string

record Comment =
  id' :: string
  projectId :: string
  authorName :: string
  authorAvatarUrl :: string
  content :: string
  createdAt :: string

record ActivityLog =
  id' :: string
  timestamp :: string
  author :: string
  action :: string

text \<open>What the task form hands over: a task without the fields the handler sets.\<close>

record TaskData =
  title :: string
  description :: string
  status :: TaskStatus
  priority :: TaskPriority
  startDate :: "string option"
  dueDate :: "string option"
  tags :: "string list"

text \<open>
  \<open>T extends {id: string, order: number}\<close>, the bound of \<open>handleReorder\<close>: projects and
  tasks extend it. A field \<open>string | null\<close> is an option, \<open>None\<close> for \<open>null\<close>.
\<close>

record item =
  id' :: string
  order :: int

record Project = item +
  name :: string
  description :: string
  createdAt :: string
  tags :: "string list"
  priority :: TaskPriority
  isArchived :: bool
  color :: string
  members :: "Member list"
  goals :: "Goal list"
  links :: "Link list"

record Task = item +
  projectId :: string
  parentId :: "string option"
  title :: string
  description :: string
  status :: TaskStatus
  priority :: TaskPriority
  startDate :: "string option"
  dueDate :: "string option"
  tags :: "string list"
  isFocused :: bool
  createdAt :: string

record AppState =
  projects :: "Project list"
  tasks :: "Task list"
  comments :: "string \<rightharpoonup> Comment list"
  activityLog :: "string \<rightharpoonup> ActivityLog list"

datatype ModalState =
    CLOSED
  | CREATE_PROJECT
  | EDIT_PROJECT Project
  | CREATE_TASK string "string option"
  | EDIT_TASK Task
  | CONFIRM_DELETE_PROJECT Project
  | CONFIRM_BULK_DELETE "string list"

section \<open>The task handlers of \<open>App.tsx\<close>\<close>

text \<open>
  One reading of the clock: the value of \<open>Date.now()\<close> and the text of
  \<open>new Date().toISOString()\<close>. Each call site of the source gets a reading of its own.
\<close>

record clock =
  now :: nat
  iso :: string

definition createActivityLog :: "clock \<Rightarrow> string \<Rightarrow> string \<Rightarrow> ActivityLog" where
  "createActivityLog clk pid act =
     \<lparr>ActivityLog.id' = ''log_'' @ show_nat (now clk), timestamp = iso clk,
      author = ''You'', action = act\<rparr>"

text \<open>
  The handlers run inside \<open>setState(current => ...)\<close>. What throws in them is a
  \<open>TypeError\<close>; an updater that throws makes \<open>setState\<close> throw before it touches the
  history, so the state stays as it was.
\<close>

datatype js_error = TypeError

definition state_after :: "(AppState \<Rightarrow> js_error + AppState) \<Rightarrow> AppState \<Rightarrow> AppState" where
  "state_after updater current =
     (case updater current of Inl e \<Rightarrow> current | Inr next \<Rightarrow> next)"

text \<open>
  The activity log is a plain object, so \<open>log[pid]\<close> of a key the log does not own is
  looked up in \<open>Object.prototype\<close>. These are its members; each is a function, and
  \<open>__proto__\<close> gives the prototype object itself: truthy, and not iterable.
\<close>

definition Object_prototype :: "string list" where
  "Object_prototype =
     [''constructor'', ''__defineGetter__'', ''__defineSetter__'', ''hasOwnProperty'',
      ''__lookupGetter__'', ''__lookupSetter__'', ''isPrototypeOf'', ''propertyIsEnumerable'',
      ''toString'', ''valueOf'', ''__proto__'', ''toLocaleString'']"

text \<open>
  \<open>[...(log[pid] || [])]\<close>: the entries under an own key; the empty list when the lookup
  gives \<open>undefined\<close>; a \<open>TypeError\<close> when it gives an inherited member, which the spread
  cannot iterate.
\<close>

definition entries ::
  "(string \<rightharpoonup> ActivityLog list) \<Rightarrow> string \<Rightarrow> js_error + ActivityLog list" where
  "entries lg pid =
     (case lg pid of
        Some es \<Rightarrow> Inr es
      | None \<Rightarrow> if pid \<in> set Object_prototype then Inl TypeError else Inr [])"

text \<open>\<open>[...(log[pid] || []), entry]\<close> stored under \<open>pid\<close>.\<close>

definition append_log ::
  "(string \<rightharpoonup> ActivityLog list) \<Rightarrow> string \<Rightarrow> ActivityLog \<Rightarrow>
   js_error + (string \<rightharpoonup> ActivityLog list)" where
  "append_log lg pid entry =
     (case entries lg pid of
        Inl e \<Rightarrow> Inl e
      | Inr es \<Rightarrow> Inr (lg(pid \<mapsto> es @ [entry])))"

definition quoted :: "string \<Rightarrow> string" where
  "quoted s = CHR 0x22 # s @ [CHR 0x22]"

subsection \<open>\<open>handleDeleteTask\<close>\<close>

text \<open>A \<open>Set<string>\<close>, as the list of its elements in insertion order.\<close>

definition set_add :: "string list \<Rightarrow> string \<Rightarrow> string list" where
  "set_add s x = (if x \<in> set s then s else s @ [x])"

text \<open>
  The body of the \<open>forEach\<close>:
  \<open>if (task.parentId && tasksToDelete.has(task.parentId)) tasksToDelete.add(task.id)\<close>.
  The first conjunct is a truthiness test: \<open>null\<close> and the empty string fail it.
\<close>

definition scan_task :: "Task \<Rightarrow> string list \<Rightarrow> string list" where
  "scan_task task tasksToDelete =
     (case parentId task of
        None \<Rightarrow> tasksToDelete
      | Some p \<Rightarrow> if p \<noteq> [] \<and> p \<in> set tasksToDelete then set_add tasksToDelete (id' task)
                  else tasksToDelete)"

definition scan :: "Task list \<Rightarrow> string list \<Rightarrow> string list" where
  "scan ts tasksToDelete = fold scan_task ts tasksToDelete"

lemma set_scan_task: "set s \<subseteq> set (scan_task t s) \<and> set (scan_task t s) \<subseteq> set s \<union> {id' t}"
  by (auto simp: scan_task_def set_add_def split: option.splits)

lemma length_scan_task:
  "length s \<le> length (scan_task t s) \<and>
   (length s < length (scan_task t s) \<longrightarrow> id' t \<in> set (scan_task t s) - set s)"
  by (auto simp: scan_task_def set_add_def split: option.splits)

lemma scan_grows:
  "set s \<subseteq> set (scan ts s) \<and> set (scan ts s) \<subseteq> set s \<union> id' ` set ts \<and>
   length s \<le> length (scan ts s) \<and>
   (length s < length (scan ts s) \<longrightarrow> set s \<noteq> set (scan ts s))"
  unfolding scan_def
proof (induction ts arbitrary: s)
  case Nil
  then show ?case by simp
next
  case (Cons t ts)
  note st = set_scan_task [of s t] length_scan_task [of s t]
  note ih = Cons.IH [of "scan_task t s"]
  have sub: "set s \<subseteq> set (fold scan_task ts (scan_task t s))"
    using st ih by blast
  have "set (fold scan_task (t # ts) s) \<subseteq> set s \<union> id' ` set (t # ts)"
    using st ih by auto
  moreover have "length s \<le> length (fold scan_task (t # ts) s)"
    using st ih by (metis fold_simps(2) le_trans)
  moreover have "set s \<noteq> set (fold scan_task (t # ts) s)"
    if "length s < length (fold scan_task (t # ts) s)"
  proof (cases "length s < length (scan_task t s)")
    case True
    then have "id' t \<in> set (scan_task t s) - set s" using st by blast
    then show ?thesis using ih by auto
  next
    case False
    then have "scan_task t s = s"
      by (auto simp: scan_task_def set_add_def split: option.splits if_splits)
    then show ?thesis using ih that by simp
  qed
  ultimately show ?case using sub by simp
qed

text \<open>The \<open>while (search)\<close> loop: scan all tasks again until the set stops growing.\<close>

function closure_loop :: "Task list \<Rightarrow> string list \<Rightarrow> string list" where
  "closure_loop ts tasksToDelete =
     (let scanned = scan ts tasksToDelete in
      if length scanned > length tasksToDelete then closure_loop ts scanned else scanned)"
  by pat_completeness auto
termination
proof (relation "measure (\<lambda>(ts, s). card (id' ` set ts - set s))")
  show "wf (measure (\<lambda>(ts, s). card (id' ` set ts - set s)))" by simp
next
  fix ts :: "Task list" and tasksToDelete scanned :: "string list"
  assume sc: "scanned = scan ts tasksToDelete" and gr: "length tasksToDelete < length scanned"
  note g = scan_grows [of tasksToDelete ts]
  have "set tasksToDelete \<subset> set scanned" using g gr sc by blast
  moreover have "set scanned \<subseteq> set tasksToDelete \<union> id' ` set ts" using g sc by blast
  ultimately have "id' ` set ts - set scanned \<subset> id' ` set ts - set tasksToDelete" by blast
  then have "card (id' ` set ts - set scanned) < card (id' ` set ts - set tasksToDelete)"
    by (intro psubset_card_mono) auto
  then show "((ts, scanned), (ts, tasksToDelete)) \<in> measure (\<lambda>(ts, s). card (id' ` set ts - set s))"
    by simp
qed

declare closure_loop.simps [simp del]

definition handleDeleteTask :: "clock \<Rightarrow> string \<Rightarrow> AppState \<Rightarrow> js_error + AppState" where
  "handleDeleteTask clk taskId current =
     (case find (\<lambda>t. id' t = taskId) (tasks current) of
        None \<Rightarrow> Inr current
      | Some taskToDelete \<Rightarrow>
          let tasksToDelete = closure_loop (tasks current) [taskId];
              log = createActivityLog clk (projectId taskToDelete)
                      (''deleted task '' @ quoted (title taskToDelete) @ ''.'')
          in case append_log (activityLog current) (projectId taskToDelete) log of
               Inl e \<Rightarrow> Inl e
             | Inr newLog \<Rightarrow>
                 Inr (current\<lparr>tasks := filter (\<lambda>t. id' t \<notin> set tasksToDelete) (tasks current),
                              activityLog := newLog\<rparr>))"

subsection \<open>\<open>handleSaveTask\<close>\<close>

text \<open>\<open>{ ...task, ...taskData }\<close>\<close>

definition with_data :: "Task \<Rightarrow> TaskData \<Rightarrow> Task" where
  "with_data t d =
     t\<lparr>title := TaskData.title d, description := TaskData.description d,
       status := TaskData.status d, priority := TaskData.priority d,
       startDate := TaskData.startDate d, dueDate := TaskData.dueDate d,
       tags := TaskData.tags d\<rparr>"

text \<open>\<open>xs.map((item, index) => ({ ...item, order: index }))\<close>\<close>

definition renumber :: "'a item_scheme list \<Rightarrow> 'a item_scheme list" where
  "renumber xs = map (\<lambda>(index, item). item\<lparr>order := int index\<rparr>) (enumerate 0 xs)"

text \<open>
  The updater that \<open>handleSaveTask\<close> passes to \<open>setState\<close>. \<open>modalState\<close> is the modal
  that is open. Of the two clock readings, an edit uses the first for the entry of the
  move and the second for the entry of the edit; a creation uses the first for the new
  task and the second for its entry. \<open>Array.prototype.sort\<close> is stable, as \<open>sort_key\<close>
  is, and a \<open>Map\<close> built from a list of pairs keeps the last value of a key. The
  \<open>order\<close> values are integers, as the handlers produce them.
\<close>

definition handleSaveTask ::
  "ModalState \<Rightarrow> clock \<Rightarrow> clock \<Rightarrow> TaskData \<Rightarrow> string \<Rightarrow> string option \<Rightarrow> AppState \<Rightarrow>
   js_error + AppState" where
  "handleSaveTask modalState clk1 clk2 taskData newProjectId newParentId current =
     (case modalState of
        EDIT_TASK originalTask \<Rightarrow>
          let logAction = ''edited task '' @ quoted (TaskData.title taskData) @ ''.'';
              hasMoved = (projectId originalTask \<noteq> newProjectId \<or>
                          parentId originalTask \<noteq> newParentId);
              taskWithData = with_data originalTask taskData;
              tempTask = taskWithData\<lparr>projectId := newProjectId, parentId := newParentId\<rparr>;
              otherTasks = filter (\<lambda>t. id' t \<noteq> id' originalTask) (tasks current);
              oldSiblings = renumber (sort_key order
                 (filter (\<lambda>t. projectId t = projectId originalTask \<and>
                              parentId t = parentId originalTask) otherTasks));
              oldSiblingMap = map_of (rev (map (\<lambda>t. (id' t, t)) oldSiblings));
              newSiblings = filter (\<lambda>t. projectId t = newProjectId \<and> parentId t = newParentId)
                 otherTasks;
              taskWithNewOrder = tempTask\<lparr>order := int (length newSiblings)\<rparr>;
              finalTasks =
                (if hasMoved
                 then map (\<lambda>t. case oldSiblingMap (id' t) of Some t' \<Rightarrow> t' | None \<Rightarrow> t) otherTasks
                      @ [taskWithNewOrder]
                 else map (\<lambda>t. if id' t = id' originalTask then taskWithData else t)
                        (tasks current));
              logMove = createActivityLog clk1 newProjectId
                 (''moved task '' @ quoted (TaskData.title taskData) @ '' into this project.'');
              movedLog =
                (if hasMoved \<and> projectId originalTask \<noteq> newProjectId
                 then append_log (activityLog current) newProjectId logMove
                 else Inr (activityLog current));
              logEdit = createActivityLog clk2 (projectId originalTask) logAction
          in case movedLog of
               Inl e \<Rightarrow> Inl e
             | Inr finalActivityLog \<Rightarrow>
                 (case append_log finalActivityLog (projectId originalTask) logEdit of
                    Inl e \<Rightarrow> Inl e
                  | Inr editedLog \<Rightarrow>
                      Inr (current\<lparr>tasks := finalTasks, activityLog := editedLog\<rparr>))
      | CREATE_TASK modalProjectId modalParentId \<Rightarrow>
          let logAction = ''created task '' @ quoted (TaskData.title taskData) @ ''.'';
              siblingTasks = filter (\<lambda>t. projectId t = newProjectId \<and> parentId t = newParentId)
                 (tasks current);
              newTask =
                \<lparr>id' = ''task_'' @ show_nat (now clk1),
                 order = foldl (\<lambda>mx t. max (order t) mx) (- 1) siblingTasks + 1,
                 projectId = newProjectId, parentId = newParentId,
                 title = TaskData.title taskData, description = TaskData.description taskData,
                 status = TaskData.status taskData, priority = TaskData.priority taskData,
                 startDate = TaskData.startDate taskData, dueDate = TaskData.dueDate taskData,
                 tags = TaskData.tags taskData, isFocused = False, createdAt = iso clk1\<rparr>;
              log = createActivityLog clk2 newProjectId logAction
          in case append_log (activityLog current) newProjectId log of
               Inl e \<Rightarrow> Inl e
             | Inr newLog \<Rightarrow> Inr (current\<lparr>tasks := tasks current @ [newTask], activityLog := newLog\<rparr>)
      | _ \<Rightarrow> Inr current)"

text \<open>
  The function mapped over \<open>otherTasks\<close> in the moved branch,
  \<open>t => oldSiblingMap.get(t.id) || t\<close>, for the sorted old siblings \<open>xs\<close>.
\<close>

definition replaced :: "Task list \<Rightarrow> Task \<Rightarrow> Task" where
  "replaced xs t =
     (case map_of (rev (map (\<lambda>t. (id' t, t)) (renumber xs))) (id' t) of
        Some t' \<Rightarrow> t' | None \<Rightarrow> t)"

text \<open>What a form may hand over, for the examples.\<close>

definition data_of :: "string \<Rightarrow> TaskData" where
  "data_of t =
     \<lparr>TaskData.title = t, TaskData.description = [], TaskData.status = InProgress,
      TaskData.priority = High, TaskData.startDate = None, TaskData.dueDate = None,
      TaskData.tags = []\<rparr>"

subsection \<open>\<open>handleReorder\<close>\<close>

datatype position = Top | Bottom

text \<open>\<open>findIndex\<close>; \<open>None\<close> is its result -1.\<close>

fun findIndex :: "('a \<Rightarrow> bool) \<Rightarrow> 'a list \<Rightarrow> nat option" where
  "findIndex P [] = None"
| "findIndex P (x # xs) = (if P x then Some 0 else map_option Suc (findIndex P xs))"

definition handleReorder ::
  "string \<Rightarrow> string \<Rightarrow> 'a item_scheme list \<Rightarrow> position \<Rightarrow> 'a item_scheme list" where
  "handleReorder draggedId targetId list position =
     (case find (\<lambda>p. id' p = draggedId) list of
        None \<Rightarrow> list
      | Some draggedItem \<Rightarrow>
          let reorderedList = sort_key order (filter (\<lambda>p. id' p \<noteq> draggedId) list) in
          (case findIndex (\<lambda>p. id' p = targetId) reorderedList of
             None \<Rightarrow> list
           | Some found \<Rightarrow>
               let targetIndex = (if position = Bottom then found + 1 else found)
               in renumber (take targetIndex reorderedList @ [draggedItem] @
                            drop targetIndex reorderedList)))"

text \<open>
  The transitive descendants of a task, as the specification defines them: the ids
  reached from the task through \<open>parentId\<close> links.
\<close>

inductive_set descendants :: "Task list \<Rightarrow> string \<Rightarrow> string set"
  for ts :: "Task list" and root :: string where
  child: "t \<in> set ts \<Longrightarrow> parentId t = Some root \<Longrightarrow> id' t \<in> descendants ts root"
| grandchild: "p \<in> descendants ts root \<Longrightarrow> t \<in> set ts \<Longrightarrow> parentId t = Some p
     \<Longrightarrow> id' t \<in> descendants ts root"

text \<open>
  Sibling groups and dense ordering: the tasks of one (projectId, parentId) pair carry
  the order values 0, ..., n - 1, each once.
\<close>

definition siblings :: "Task list \<Rightarrow> string \<Rightarrow> string option \<Rightarrow> Task list" where
  "siblings ts pid par = filter (\<lambda>t. projectId t = pid \<and> parentId t = par) ts"

definition dense_group :: "Task list \<Rightarrow> bool" where
  "dense_group g = (sort (map order g) = map int [0..<length g])"

definition dense_orders :: "Task list \<Rightarrow> bool" where
  "dense_orders ts = list_all (\<lambda>t. dense_group (siblings ts (projectId t) (parentId t))) ts"

text \<open>
  The entries a project has in the log, and whether \<open>log[pid]\<close> resolves to a member
  inherited from \<open>Object.prototype\<close>.
\<close>

definition log_of :: "(string \<rightharpoonup> ActivityLog list) \<Rightarrow> string \<Rightarrow> ActivityLog list" where
  "log_of lg pid = (case lg pid of None \<Rightarrow> [] | Some es \<Rightarrow> es)"

definition inherited :: "(string \<rightharpoonup> ActivityLog list) \<Rightarrow> string \<Rightarrow> bool" where
  "inherited lg pid = (lg pid = None \<and> pid \<in> set Object_prototype)"

text \<open>The task list that the moved branch of \<open>handleSaveTask\<close> builds.\<close>

definition finalTasks_moved ::
  "Task \<Rightarrow> TaskData \<Rightarrow> string \<Rightarrow> string option \<Rightarrow> Task list \<Rightarrow> Task list" where
  "finalTasks_moved orig d np npar ts =
     map (replaced (sort_key order
            (siblings (filter (\<lambda>t. id' t \<noteq> id' orig) ts) (projectId orig) (parentId orig))))
         (filter (\<lambda>t. id' t \<noteq> id' orig) ts)
     @ [(with_data orig d)\<lparr>projectId := np, parentId := npar,
          order := int (length (siblings (filter (\<lambda>t. id' t \<noteq> id' orig) ts) np npar))\<rparr>]"

section \<open>Migration at load time and import (\<open>App.tsx\<close>)\<close>

text \<open>
  The persisted value and an imported file are raw JSON, read through \<open>any\<close>. Reading a
  property of \<open>null\<close> or \<open>undefined\<close>, and calling \<open>map\<close> or \<open>some\<close> on a value that is
  not an array, throws a \<open>TypeError\<close>.
\<close>

definition nullish :: "jsval \<Rightarrow> bool" where
  "nullish v = (v = Null \<or> v = Undefined)"

text \<open>
  \<open>v.k\<close> for a \<open>v\<close> that is neither \<open>null\<close> nor \<open>undefined\<close>, and for the names the code
  reads (\<open>projects\<close>, \<open>tasks\<close>, \<open>comments\<close>, \<open>activityLog\<close>, \<open>priority\<close>, \<open>isArchived\<close>,
  \<open>color\<close>, \<open>members\<close>, \<open>goals\<close>, \<open>links\<close>, \<open>startDate\<close>, \<open>createdAt\<close>: none is an index,
  \<open>length\<close>, or a member of \<open>Object.prototype\<close> or of the prototype of arrays, strings,
  numbers or booleans): the own property of an object, \<open>undefined\<close> otherwise.
\<close>

definition get :: "jsval \<Rightarrow> string \<Rightarrow> jsval" where
  "get v k =
     (case v of
        Obj kvs \<Rightarrow> (case map_of kvs k of Some x \<Rightarrow> x | None \<Rightarrow> Undefined)
      | _ \<Rightarrow> Undefined)"

text \<open>
  The own enumerable properties that \<open>...v\<close> copies: those of an object, the elements of
  an array and the characters of a string under their indices, none for anything else.
\<close>

definition spread :: "jsval \<Rightarrow> (string \<times> jsval) list" where
  "spread v =
     (case v of
        Obj kvs \<Rightarrow> kvs
      | Arr vs \<Rightarrow> map (\<lambda>(i, x). (show_nat i, x)) (enumerate 0 vs)
      | Str cs \<Rightarrow> map (\<lambda>(i, c). (show_nat i, Str [c])) (enumerate 0 cs)
      | _ \<Rightarrow> [])"

text \<open>
  Setting a property: an existing key keeps its place; a new key that is an array index
  (a canonical numeral below 2^32 - 1) goes among the indices in ascending order, any
  other new key goes last. This is the order in which JavaScript enumerates properties.
\<close>

definition array_index :: "string \<Rightarrow> int option" where
  "array_index k =
     (let n = foldl (\<lambda>a c. 10 * a + (of_char c - 48)) (0 :: int) k in
      if k \<noteq> [] \<and> list_all (\<lambda>c. CHR ''0'' \<le> c \<and> c \<le> CHR ''9'') k \<and>
         (k = ''0'' \<or> hd k \<noteq> CHR ''0'') \<and> n < 4294967295
      then Some n else None)"

definition comes_before :: "int \<Rightarrow> string \<times> jsval \<Rightarrow> bool" where
  "comes_before n kv = (case array_index (fst kv) of Some m \<Rightarrow> m < n | None \<Rightarrow> False)"

definition put :: "string \<Rightarrow> jsval \<Rightarrow> (string \<times> jsval) list \<Rightarrow> (string \<times> jsval) list" where
  "put k v kvs =
     (if k \<in> set (map fst kvs) then AList.update k v kvs
      else case array_index k of
             None \<Rightarrow> kvs @ [(k, v)]
           | Some n \<Rightarrow> takeWhile (comes_before n) kvs @ [(k, v)] @ dropWhile (comes_before n) kvs)"

text \<open>\<open>{ <kvs>, ...v }\<close>: the properties of \<open>v\<close> set one after the other.\<close>

definition spread_into :: "(string \<times> jsval) list \<Rightarrow> jsval \<Rightarrow> (string \<times> jsval) list" where
  "spread_into kvs v = foldl (\<lambda>acc (k, x). put k x acc) kvs (spread v)"

fun map_throwing :: "(jsval \<Rightarrow> js_error + jsval) \<Rightarrow> jsval list \<Rightarrow> js_error + jsval list" where
  "map_throwing f [] = Inr []"
| "map_throwing f (x # xs) =
     (case f x of
        Inl e \<Rightarrow> Inl e
      | Inr y \<Rightarrow> (case map_throwing f xs of Inl e \<Rightarrow> Inl e | Inr ys \<Rightarrow> Inr (y # ys)))"

text \<open>\<open>v.map(f)\<close>\<close>

definition js_map :: "(jsval \<Rightarrow> js_error + jsval) \<Rightarrow> jsval \<Rightarrow> js_error + jsval" where
  "js_map f v =
     (case v of
        Arr vs \<Rightarrow> (case map_throwing f vs of Inl e \<Rightarrow> Inl e | Inr ys \<Rightarrow> Inr (Arr ys))
      | _ \<Rightarrow> Inl TypeError)"

fun some_throwing :: "(jsval \<Rightarrow> js_error + bool) \<Rightarrow> jsval list \<Rightarrow> js_error + bool" where
  "some_throwing f [] = Inr False"
| "some_throwing f (x # xs) =
     (case f x of
        Inl e \<Rightarrow> Inl e
      | Inr b \<Rightarrow> if b then Inr True else some_throwing f xs)"

text \<open>\<open>v.some(f)\<close>: it stops at the first element for which \<open>f\<close> holds.\<close>

definition js_some :: "(jsval \<Rightarrow> js_error + bool) \<Rightarrow> jsval \<Rightarrow> js_error + bool" where
  "js_some f v = (case v of Arr vs \<Rightarrow> some_throwing f vs | _ \<Rightarrow> Inl TypeError)"

text \<open>\<open>x => x.k === undefined\<close>\<close>

definition lacks :: "string \<Rightarrow> jsval \<Rightarrow> js_error + bool" where
  "lacks k x = (if nullish x then Inl TypeError else Inr (get x k = Undefined))"

definition needsMigration :: "jsval \<Rightarrow> js_error + bool" where
  "needsMigration oldState =
     (if nullish oldState then Inl TypeError
      else if \<not> truthy (get oldState ''comments'') then Inr True
      else if \<not> truthy (get oldState ''activityLog'') then Inr True
      else case js_some (lacks ''color'') (get oldState ''projects'') of
             Inl e \<Rightarrow> Inl e
           | Inr b \<Rightarrow> if b then Inr True
                      else js_some (lacks ''startDate'') (get oldState ''tasks''))"

text \<open>The project of the migrated state: \<open>{ ...p, priority: p.priority || 'Medium', ... }\<close>.\<close>

definition migrated_project :: "jsval \<Rightarrow> js_error + jsval" where
  "migrated_project p =
     (if nullish p then Inl TypeError
      else Inr (Obj
        (put ''links'' (js_or (get p ''links'') (Arr []))
        (put ''goals'' (js_or (get p ''goals'') (Arr []))
        (put ''members'' (js_or (get p ''members'') (Arr []))
        (put ''color'' (js_or (get p ''color'') (Str ''#334155''))
        (put ''isArchived'' (js_or (get p ''isArchived'') (Bool False))
        (put ''priority'' (js_or (get p ''priority'') (Str ''Medium''))
        (spread p)))))))))"

text \<open>The task of both paths: \<open>{ ...t, startDate: t.startDate || t.createdAt }\<close>.\<close>

definition migrated_task :: "jsval \<Rightarrow> js_error + jsval" where
  "migrated_task t =
     (if nullish t then Inl TypeError
      else Inr (Obj (put ''startDate'' (js_or (get t ''startDate'') (get t ''createdAt''))
                      (spread t))))"

definition migratedState :: "jsval \<Rightarrow> js_error + jsval" where
  "migratedState oldState =
     (if nullish oldState then Inl TypeError
      else case js_map migrated_project (js_or (get oldState ''projects'') (Arr [])) of
        Inl e \<Rightarrow> Inl e
      | Inr ps \<Rightarrow>
         (case js_map migrated_task (js_or (get oldState ''tasks'') (Arr [])) of
            Inl e \<Rightarrow> Inl e
          | Inr ts \<Rightarrow>
              Inr (Obj [(''projects'', ps), (''tasks'', ts),
                        (''comments'', js_or (get oldState ''comments'') (Obj [])),
                        (''activityLog'', js_or (get oldState ''activityLog'') (Obj []))])))"

text \<open>
  The effect that runs once at load: the application state after it, the migrated state
  when migration is needed and the persisted state as it is otherwise.
\<close>

definition migration :: "jsval \<Rightarrow> js_error + jsval" where
  "migration persistedState =
     (case needsMigration persistedState of
        Inl e \<Rightarrow> Inl e
      | Inr b \<Rightarrow> if b then migratedState persistedState else Inr persistedState)"

text \<open>
  The project of imported data:
  \<open>{ priority: 'Medium', isArchived: false, color: '#334155', members: [], goals: [],
  links: [], ...p }\<close>.
\<close>

definition imported_project :: "jsval \<Rightarrow> js_error + jsval" where
  "imported_project p =
     Inr (Obj (spread_into
       [(''priority'', Str ''Medium''), (''isArchived'', Bool False),
        (''color'', Str ''#334155''), (''members'', Arr []), (''goals'', Arr []),
        (''links'', Arr [])] p))"

text \<open>\<open>handleImportData\<close>: the state handed to \<open>resetState\<close>.\<close>

definition handleImportData :: "jsval \<Rightarrow> js_error + jsval" where
  "handleImportData data =
     (if nullish data then Inl TypeError
      else case js_map imported_project (js_or (get data ''projects'') (Arr [])) of
        Inl e \<Rightarrow> Inl e
      | Inr ps \<Rightarrow>
         (case js_map migrated_task (js_or (get data ''tasks'') (Arr [])) of
            Inl e \<Rightarrow> Inl e
          | Inr ts \<Rightarrow>
              Inr (Obj [(''projects'', ps), (''tasks'', ts),
                        (''comments'', js_or (get data ''comments'') (Obj [])),
                        (''activityLog'', js_or (get data ''activityLog'') (Obj []))])))"

text \<open>Two results are the same up to the order of object keys.\<close>

definition same_result :: "js_error + jsval \<Rightarrow> js_error + jsval \<Rightarrow> bool" where
  "same_result a b =
     (case a of
        Inl e \<Rightarrow> b = Inl e
      | Inr x \<Rightarrow> (case b of Inl e \<Rightarrow> False | Inr y \<Rightarrow> deep_equal x y))"

text \<open>The current schema (\<open>types.ts\<close>), as a check on a raw value.\<close>

definition is_string :: "jsval \<Rightarrow> bool" where
  "is_string v = (case v of Str s \<Rightarrow> True | _ \<Rightarrow> False)"

definition is_number :: "jsval \<Rightarrow> bool" where
  "is_number v = (case v of Num n \<Rightarrow> True | _ \<Rightarrow> False)"

definition is_boolean :: "jsval \<Rightarrow> bool" where
  "is_boolean v = (case v of Bool b \<Rightarrow> True | _ \<Rightarrow> False)"

definition is_object :: "jsval \<Rightarrow> bool" where
  "is_object v = (case v of Obj kvs \<Rightarrow> True | _ \<Rightarrow> False)"

definition is_string_or_null :: "jsval \<Rightarrow> bool" where
  "is_string_or_null v = (is_string v \<or> v = Null)"

definition is_one_of :: "string list \<Rightarrow> jsval \<Rightarrow> bool" where
  "is_one_of names v = (case v of Str s \<Rightarrow> s \<in> set names | _ \<Rightarrow> False)"

definition is_array_of :: "(jsval \<Rightarrow> bool) \<Rightarrow> jsval \<Rightarrow> bool" where
  "is_array_of P v = (case v of Arr vs \<Rightarrow> list_all P vs | _ \<Rightarrow> False)"

definition is_record_of :: "(jsval \<Rightarrow> bool) \<Rightarrow> jsval \<Rightarrow> bool" where
  "is_record_of P v = (case v of Obj kvs \<Rightarrow> list_all (\<lambda>kv. P (snd kv)) kvs | _ \<Rightarrow> False)"

definition is_TaskPriority :: "jsval \<Rightarrow> bool" where
  "is_TaskPriority v = is_one_of [''Low'', ''Medium'', ''High''] v"

definition is_Task :: "jsval \<Rightarrow> bool" where
  "is_Task t =
     (is_object t \<and> is_string (get t ''id'') \<and> is_string (get t ''projectId'') \<and>
      is_string_or_null (get t ''parentId'') \<and> is_string (get t ''title'') \<and>
      is_string (get t ''description'') \<and>
      is_one_of [''To Do'', ''In Progress'', ''Done''] (get t ''status'') \<and>
      is_TaskPriority (get t ''priority'') \<and> is_string_or_null (get t ''startDate'') \<and>
      is_string_or_null (get t ''dueDate'') \<and> is_array_of is_string (get t ''tags'') \<and>
      is_boolean (get t ''isFocused'') \<and> is_string (get t ''createdAt'') \<and>
      is_number (get t ''order''))"

definition is_Member :: "jsval \<Rightarrow> bool" where
  "is_Member m =
     (is_object m \<and> is_string (get m ''id'') \<and> is_string (get m ''name'') \<and>
      is_one_of [''Owner'', ''Collaborator'', ''Viewer''] (get m ''role'') \<and>
      is_string (get m ''avatarUrl''))"

definition is_Goal :: "jsval \<Rightarrow> bool" where
  "is_Goal g =
     (is_object g \<and> is_string (get g ''id'') \<and> is_string (get g ''title'') \<and>
      is_number (get g ''targetValue'') \<and> is_number (get g ''currentValue'') \<and>
      is_string (get g ''unit''))"

definition is_Link :: "jsval \<Rightarrow> bool" where
  "is_Link l =
     (is_object l \<and> is_string (get l ''id'') \<and> is_string (get l ''title'') \<and>
      is_string (get l ''url''))"

definition is_Comment :: "jsval \<Rightarrow> bool" where
  "is_Comment c =
     (is_object c \<and> is_string (get c ''id'') \<and> is_string (get c ''projectId'') \<and>
      is_string (get c ''authorName'') \<and> is_string (get c ''authorAvatarUrl'') \<and>
      is_string (get c ''content'') \<and> is_string (get c ''createdAt''))"

definition is_ActivityLog :: "jsval \<Rightarrow> bool" where
  "is_ActivityLog l =
     (is_object l \<and> is_string (get l ''id'') \<and> is_string (get l ''timestamp'') \<and>
      is_string (get l ''author'') \<and> is_string (get l ''action''))"

definition is_Project :: "jsval \<Rightarrow> bool" where
  "is_Project p =
     (is_object p \<and> is_string (get p ''id'') \<and> is_string (get p ''name'') \<and>
      is_string (get p ''description'') \<and> is_string (get p ''createdAt'') \<and>
      is_array_of is_string (get p ''tags'') \<and> is_number (get p ''order'') \<and>
      is_TaskPriority (get p ''priority'') \<and> is_boolean (get p ''isArchived'') \<and>
      is_string (get p ''color'') \<and> is_array_of is_Member (get p ''members'') \<and>
      is_array_of is_Goal (get p ''goals'') \<and> is_array_of is_Link (get p ''links''))"

definition is_AppState :: "jsval \<Rightarrow> bool" where
  "is_AppState s =
     (is_object s \<and> is_array_of is_Project (get s ''projects'') \<and>
      is_array_of is_Task (get s ''tasks'') \<and>
      is_record_of (is_array_of is_Comment) (get s ''comments'') \<and>
      is_record_of (is_array_of is_ActivityLog) (get s ''activityLog''))"


text \<open>
  Where the two paths agree: the entries of \<open>projects\<close> are objects in which each of the
  six defaulted fields is absent or holds a truthy value (\<open>isArchived\<close> may also hold
  \<open>false\<close>).
\<close>

definition settled :: "(string \<times> jsval) list \<Rightarrow> string \<Rightarrow> bool" where
  "settled kvs k = (case map_of kvs k of None \<Rightarrow> True | Some v \<Rightarrow> truthy v)"

definition settled_project :: "jsval \<Rightarrow> bool" where
  "settled_project p =
     (case p of
        Obj kvs \<Rightarrow>
          distinct (map fst kvs) \<and> settled kvs ''priority'' \<and>
          (settled kvs ''isArchived'' \<or> map_of kvs ''isArchived'' = Some (Bool False)) \<and>
          settled kvs ''color'' \<and> settled kvs ''members'' \<and> settled kvs ''goals'' \<and>
          settled kvs ''links''
      | _ \<Rightarrow> False)"

definition settled_projects :: "jsval \<Rightarrow> bool" where
  "settled_projects raw =
     (case js_or (get raw ''projects'') (Arr []) of
        Arr ps \<Rightarrow> list_all settled_project ps
      | _ \<Rightarrow> True)"


text \<open>
  Raw values for the examples: data of an old schema, and data in which a project's
  colour is the empty string.
\<close>

definition old_export :: jsval where
  "old_export =
     Obj [(''projects'', Arr [Obj [(''id'', Str ''p1''), (''name'', Str ''Site''),
                                   (''isArchived'', Bool False)]]),
          (''tasks'', Arr [Obj [(''id'', Str ''t1''), (''projectId'', Str ''p1''),
                                (''createdAt'', Str ''2023-01-01T00:00:00.000Z'')]])]"

definition blank_color :: jsval where
  "blank_color =
     Obj [(''projects'', Arr [Obj [(''id'', Str ''p1''), (''color'', Str [])]]),
          (''tasks'', Arr [])]"

text \<open>
  A state of the current schema: one project with all its fields, one task whose
  \<open>startDate\<close> is present and \<open>null\<close>, no comments, and one log entry.
\<close>

definition current_example :: jsval where
  "current_example =
     Obj [(''projects'', Arr [Obj
            [(''id'', Str ''p1''), (''name'', Str ''Site''), (''description'', Str []),
             (''createdAt'', Str ''2024-05-01T09:00:00.000Z''), (''tags'', Arr [Str ''web'']),
             (''order'', Num 0), (''priority'', Str ''High''), (''isArchived'', Bool False),
             (''color'', Str ''#be123c''), (''members'', Arr []), (''goals'', Arr []),
             (''links'', Arr [])]]),
          (''tasks'', Arr [Obj
            [(''id'', Str ''t1''), (''projectId'', Str ''p1''), (''parentId'', Null),
             (''title'', Str ''Draft''), (''description'', Str []), (''status'', Str ''To Do''),
             (''priority'', Str ''Low''), (''startDate'', Null), (''dueDate'', Null),
             (''tags'', Arr []), (''isFocused'', Bool False),
             (''createdAt'', Str ''2024-05-02T09:00:00.000Z''), (''order'', Num 0)]]),
          (''comments'', Obj []),
          (''activityLog'', Obj [(''p1'', Arr [Obj
            [(''id'', Str ''log_1''), (''timestamp'', Str ''2024-05-01T09:00:00.000Z''),
             (''author'', Str ''You''), (''action'', Str ''created project.'')]])])]"

text \<open>Small states for the examples: a task and a project with the fields that matter.\<close>

definition task_of :: "string \<Rightarrow> string \<Rightarrow> string option \<Rightarrow> int \<Rightarrow> Task" where
  "task_of i pid par n =
     \<lparr>id' = i, order = n, projectId = pid, parentId = par, title = i, description = [],
      status = ToDo, priority = Medium, startDate = None, dueDate = None, tags = [],
      isFocused = False, createdAt = []\<rparr>"

definition project_of :: "string \<Rightarrow> int \<Rightarrow> Project" where
  "project_of i n =
     \<lparr>id' = i, order = n, name = i, description = [], createdAt = [], tags = [],
      priority = Medium, isArchived = False, color = ''#334155'', members = [], goals = [],
      links = []\<rparr>"

definition state_of :: "Project list \<Rightarrow> Task list \<Rightarrow> AppState" where
  "state_of ps ts = \<lparr>projects = ps, tasks = ts, comments = Map.empty, activityLog = Map.empty\<rparr>"

text \<open>
  A project \<open>p1\<close> with five tasks: \<open>a\<close> and \<open>d\<close> at the top, \<open>b\<close> and \<open>e\<close> under \<open>a\<close>,
  \<open>c\<close> under \<open>b\<close>; every sibling group is numbered from 0.
\<close>

definition family :: "Task list" where
  "family = [task_of ''a'' ''p1'' None 0, task_of ''b'' ''p1'' (Some ''a'') 0,
             task_of ''c'' ''p1'' (Some ''b'') 0, task_of ''d'' ''p1'' None 1,
             task_of ''e'' ''p1'' (Some ''a'') 1]"

text \<open>
  Three top-level tasks \<open>a\<close>, \<open>b\<close>, \<open>d\<close> of \<open>p1\<close> with the orders 0, 1, 2, and a task
  \<open>x\<close> of \<open>p2\<close>.
\<close>

definition trio :: "Task list" where
  "trio = [task_of ''a'' ''p1'' None 0, task_of ''b'' ''p1'' None 1,
           task_of ''d'' ''p1'' None 2, task_of ''x'' ''p2'' None 0]"

text \<open>A task whose id is the empty string, and a sub-task of it.\<close>

definition unnamed :: "Task list" where
  "unnamed = [task_of [] ''p1'' None 0, task_of ''u'' ''p1'' (Some []) 0]"

definition noon :: clock where
  "noon = \<lparr>now = 1700000000000, iso = ''2023-11-14T22:13:20.000Z''\<rparr>"

text \<open>The state after deleting \<open>a\<close> and then \<open>b\<close> from these tasks.\<close>

definition after_two_deletes :: AppState where
  "after_two_deletes =
     state_after (handleDeleteTask noon ''b'')
       (state_after (handleDeleteTask noon ''a'')
          (state_of [project_of ''p1'' 0, project_of ''p2'' 1] trio))"

subsection \<open>The invariant\<close>

lemma store_ok_init: "store_ok (useUndoableState s)"
  by (simp add: store_ok_def useUndoableState_def)

lemma store_ok_resetState: "store_ok (resetState h s)"
  by (simp add: store_ok_def resetState_def)

lemma store_ok_undo: "store_ok h \<Longrightarrow> store_ok (undo h)"
  by (auto simp: store_ok_def undo_def)

lemma store_ok_redo: "store_ok h \<Longrightarrow> store_ok (redo h)"
  by (auto simp: store_ok_def redo_def)

lemma store_ok_setState: "store_ok h \<Longrightarrow> store_ok (setState h u)"
  by (auto simp: store_ok_def setState_def Let_def min_def)

lemma store_ok_perform: "store_ok h \<Longrightarrow> store_ok (perform h c)"
  by (cases c) (simp_all add: store_ok_setState store_ok_undo store_ok_redo store_ok_resetState)

lemma store_ok_run: "store_ok h \<Longrightarrow> store_ok (run h cs)"
  unfolding run_def by (induction cs arbitrary: h) (simp_all add: store_ok_perform)

lemma setState_accepted_no_shift:
  assumes "accepted h u" "currentIndex h + 1 < 50"
  shows "setState h u =
    \<lparr>history = take (currentIndex h + 1) (history h) @ [resolvedState h u],
     currentIndex = length (take (currentIndex h + 1) (history h))\<rparr>"
  using assms by (simp add: setState_def accepted_def Let_def min_def)

lemma state_at_last:
  "xs \<noteq> [] \<Longrightarrow> state \<lparr>history = xs, currentIndex = length xs - 1\<rparr> = last xs"
  by (simp add: state_def last_conv_nth)

lemma setState_accepted_unfold:
  assumes "accepted h u"
    and "n = take (currentIndex h + 1) (history h) @ [resolvedState h u]"
  shows "setState h u =
    (if length n > 50 then \<lparr>history = tl n, currentIndex = length (tl n) - 1\<rparr>
     else \<lparr>history = n, currentIndex = length n - 1\<rparr>)"
  using assms unfolding setState_def accepted_def Let_def by (simp only: if_False)

lemma state_setState_accepted:
  assumes "accepted h u"
  shows "state (setState h u) = resolvedState h u"
proof -
  define n where "n = take (currentIndex h + 1) (history h) @ [resolvedState h u]"
  have n_last: "last n = resolvedState h u" and n_ne: "n \<noteq> []"
    by (simp_all add: n_def)
  note unf = setState_accepted_unfold [OF assms n_def]
  show ?thesis
  proof (cases "length n > 50")
    case True
    then have tl_ne: "tl n \<noteq> []" by (cases n) auto
    have "state (setState h u) = last (tl n)"
      using state_at_last [OF tl_ne] True unf by simp
    also have "\<dots> = last n" using tl_ne by (simp add: last_tl)
    finally show ?thesis using n_last by simp
  next
    case False
    then show ?thesis using state_at_last [OF n_ne] n_last unf by simp
  qed
qed

lemma state_undo_setState:
  assumes ok: "currentIndex h < length (history h)" and acc: "accepted h u"
  shows "state (undo (setState h u)) = state h"
proof -
  define i where "i = currentIndex h"
  define n where "n = take (currentIndex h + 1) (history h) @ [resolvedState h u]"
  have len_n: "length n = i + 2" using ok by (simp add: n_def i_def)
  have n_i: "n ! i = history h ! i" using ok by (simp add: n_def i_def nth_append)
  have st: "state h = history h ! i" using ok by (simp add: state_def i_def)
  note unf = setState_accepted_unfold [OF acc n_def]
  show ?thesis
  proof (cases "length n > 50")
    case True
    then have i_pos: "0 < i" using len_n by simp
    have "setState h u = \<lparr>history = tl n, currentIndex = i\<rparr>"
      using unf True len_n by simp
    then have "undo (setState h u) = \<lparr>history = tl n, currentIndex = i - 1\<rparr>"
      using i_pos by (simp add: undo_def)
    moreover have "i - 1 < length (tl n)" using len_n by simp
    ultimately have "state (undo (setState h u)) = tl n ! (i - 1)"
      unfolding state_def by simp
    also have "\<dots> = n ! i" using len_n i_pos by (simp add: nth_tl)
    finally show ?thesis using n_i st by simp
  next
    case False
    then have "setState h u = \<lparr>history = n, currentIndex = i + 1\<rparr>"
      using unf len_n by simp
    then have "undo (setState h u) = \<lparr>history = n, currentIndex = i\<rparr>"
      by (simp add: undo_def)
    then have "state (undo (setState h u)) = n ! i"
      using len_n by (simp add: state_def)
    then show ?thesis using n_i st by simp
  qed
qed

lemma redo_undo:
  assumes "currentIndex h < length (history h)" "canUndo h"
  shows "redo (undo h) = h"
  using assms by (simp add: redo_def undo_def canUndo_def)

lemma setState_after_undo:
  assumes ok: "store_ok h" and cu: "canUndo h" and acc: "accepted (undo h) u"
  shows "setState (undo h) u =
    \<lparr>history = take (currentIndex (undo h) + 1) (history h) @ [resolvedState (undo h) u],
     currentIndex = currentIndex h\<rparr>"
proof -
  have i: "currentIndex (undo h) = currentIndex h - 1" "history (undo h) = history h"
    and pos: "0 < currentIndex h"
    using cu by (simp_all add: undo_def canUndo_def)
  have small: "currentIndex (undo h) + 1 < 50"
    using ok pos i by (simp add: store_ok_def)
  have "length (take (currentIndex (undo h) + 1) (history h)) = currentIndex h"
    using ok pos i by (simp add: store_ok_def)
  then show ?thesis
    using setState_accepted_no_shift [OF acc small] i by simp
qed

text \<open>
  C3. In the history store, with the cursor inside a history of at most 50 snapshots:
  \<open>undo\<close> right after an accepted \<open>setState\<close> shows the snapshot that was current before
  it; \<open>redo\<close> right after an \<open>undo\<close> that moved the cursor shows the snapshot that was
  undone (the store is as before); and an accepted \<open>setState\<close> after such an \<open>undo\<close>
  leaves the history as its entries up to the cursor followed by the new state, with the
  new state current and \<open>canRedo\<close> false.
\<close>

theorem undo_redo_and_branch_truncation:
  assumes "store_ok h"
  shows "(accepted h u \<longrightarrow> state (undo (setState h u)) = state h) \<and>
         (canUndo h \<longrightarrow> redo (undo h) = h \<and> state (redo (undo h)) = state h) \<and>
         (canUndo h \<and> accepted (undo h) u \<longrightarrow>
            history (setState (undo h) u) =
              take (currentIndex (undo h) + 1) (history (undo h)) @ [resolvedState (undo h) u] \<and>
            state (setState (undo h) u) = resolvedState (undo h) u \<and>
            \<not> canRedo (setState (undo h) u))"
proof (intro conjI impI)
  assume "accepted h u"
  then show "state (undo (setState h u)) = state h"
    using assms state_undo_setState by (simp add: store_ok_def)
next
  assume "canUndo h"
  then show "redo (undo h) = h"
    using assms redo_undo by (simp add: store_ok_def)
  then show "state (redo (undo h)) = state h" by simp
next
  assume a: "canUndo h \<and> accepted (undo h) u"
  have hist: "history (undo h) = history h" by (simp add: undo_def)
  note eq = setState_after_undo [OF assms conjunct1 [OF a] conjunct2 [OF a]]
  show "history (setState (undo h) u) =
      take (currentIndex (undo h) + 1) (history (undo h)) @ [resolvedState (undo h) u]"
    using eq hist by simp
  show "state (setState (undo h) u) = resolvedState (undo h) u"
    using a state_setState_accepted by simp
  have "currentIndex (undo h) + 1 = currentIndex h" "currentIndex h \<le> length (history h)"
    using assms a by (auto simp: undo_def canUndo_def store_ok_def)
  then show "\<not> canRedo (setState (undo h) u)"
    unfolding eq canRedo_def by simp
qed

text \<open>The example of the specification: history [S0, S1, S2], undo, then setState(S3).\<close>

theorem undo_redo_and_branch_truncation_witness:
  "store_ok \<lparr>history = [Num 0, Num 1, Num 2], currentIndex = 2\<rparr> \<and>
   canUndo \<lparr>history = [Num 0, Num 1, Num 2], currentIndex = 2\<rparr> \<and>
   accepted \<lparr>history = [Num 0, Num 1, Num 2], currentIndex = 2\<rparr> (Value (Num 3)) \<and>
   accepted (undo \<lparr>history = [Num 0, Num 1, Num 2], currentIndex = 2\<rparr>) (Value (Num 3)) \<and>
   state (undo (setState \<lparr>history = [Num 0, Num 1, Num 2], currentIndex = 2\<rparr> (Value (Num 3))))
     = Num 2 \<and>
   state (redo (undo \<lparr>history = [Num 0, Num 1, Num 2], currentIndex = 2\<rparr>)) = Num 2 \<and>
   history (setState (undo \<lparr>history = [Num 0, Num 1, Num 2], currentIndex = 2\<rparr>) (Value (Num 3)))
     = [Num 0, Num 1, Num 3] \<and>
   \<not> canRedo (setState (undo \<lparr>history = [Num 0, Num 1, Num 2], currentIndex = 2\<rparr>) (Value (Num 3)))"
proof -
  let ?h = "\<lparr>history = [Num 0, Num 1, Num 2], currentIndex = 2\<rparr>"
  have ok: "store_ok ?h" by (simp add: store_ok_def)
  have cu: "canUndo ?h" by (simp add: canUndo_def)
  have st: "state ?h = Num 2" by (simp add: state_def)
  have un: "undo ?h = \<lparr>history = [Num 0, Num 1, Num 2], currentIndex = 1\<rparr>"
    by (simp add: undo_def)
  have a1: "accepted ?h (Value (Num 3))"
    by (simp add: accepted_def resolvedState_def state_def show_int_def show_nat.simps digit_char_def)
  have a2: "accepted (undo ?h) (Value (Num 3))"
    unfolding un
    by (simp add: accepted_def resolvedState_def state_def show_int_def show_nat.simps digit_char_def)
  have r: "resolvedState (undo ?h) (Value (Num 3)) = Num 3" by (simp add: resolvedState_def)
  show ?thesis
    using undo_redo_and_branch_truncation [OF ok, of "Value (Num 3)"] ok cu a1 a2 st r
    by (simp add: un)
qed

lemma setState_at_cap:
  assumes acc: "accepted h u" and full: "length (history h) = 50" and cur: "currentIndex h = 49"
  shows "setState h u = \<lparr>history = tl (history h) @ [resolvedState h u], currentIndex = 49\<rparr>"
proof -
  define n where "n = take (currentIndex h + 1) (history h) @ [resolvedState h u]"
  have n_eq: "n = history h @ [resolvedState h u]" using full cur by (simp add: n_def)
  have ne: "history h \<noteq> []" using full by auto
  have "length n = 51" using full by (simp add: n_eq)
  moreover have "tl n = tl (history h) @ [resolvedState h u]" using ne by (simp add: n_eq)
  moreover have "length (tl (history h)) = 49" using full by simp
  ultimately show ?thesis using setState_accepted_unfold [OF acc n_def] by simp
qed

text \<open>
  C5. Whatever calls are made on a store created by \<open>useUndoableState\<close>, its history holds
  at most 50 snapshots and the cursor stays inside it. When an accepted \<open>setState\<close> is made
  on a full history with the cursor at its end (so that a 51st entry would result), the
  oldest snapshot is dropped, the other 49 are kept in order, the new state is appended,
  and the cursor is on it: the current state is the state just pushed. After every
  accepted \<open>setState\<close> the current state is the state pushed.
\<close>

theorem history_capped_at_50:
  "length (history (run (useUndoableState s0) cs)) \<le> 50 \<and>
   currentIndex (run (useUndoableState s0) cs) < length (history (run (useUndoableState s0) cs)) \<and>
   (accepted h u \<longrightarrow> state (setState h u) = resolvedState h u) \<and>
   (accepted h u \<and> length (history h) = 50 \<and> currentIndex h = 49 \<longrightarrow>
      history (setState h u) = tl (history h) @ [resolvedState h u] \<and>
      length (history (setState h u)) = 50 \<and>
      currentIndex (setState h u) = 49 \<and>
      state (setState h u) = resolvedState h u)"
proof -
  have "store_ok (run (useUndoableState s0) cs)"
    by (rule store_ok_run [OF store_ok_init])
  then have inv: "length (history (run (useUndoableState s0) cs)) \<le> 50"
    "currentIndex (run (useUndoableState s0) cs) < length (history (run (useUndoableState s0) cs))"
    by (simp_all add: store_ok_def)
  have cap: "history (setState h u) = tl (history h) @ [resolvedState h u] \<and>
      length (history (setState h u)) = 50 \<and> currentIndex (setState h u) = 49"
    if "accepted h u" "length (history h) = 50" "currentIndex h = 49"
    using setState_at_cap [OF that] that(2) by simp
  show ?thesis using inv cap state_setState_accepted by blast
qed

text \<open>
  Fifty accepted pushes on a fresh store fill the history to [0, ..., 49] with one more
  to spare; the next push drops the 0.
\<close>

theorem history_capped_at_50_witness:
  "accepted \<lparr>history = map (\<lambda>n. Num (int n)) [0..<50], currentIndex = 49\<rparr> (Value (Num 50)) \<and>
   length (history \<lparr>history = map (\<lambda>n. Num (int n)) [0..<50], currentIndex = 49\<rparr>) = 50 \<and>
   history (setState \<lparr>history = map (\<lambda>n. Num (int n)) [0..<50], currentIndex = 49\<rparr>
              (Value (Num 50)))
     = map (\<lambda>n. Num (int n)) [1..<51] \<and>
   currentIndex (setState \<lparr>history = map (\<lambda>n. Num (int n)) [0..<50], currentIndex = 49\<rparr>
              (Value (Num 50))) = 49 \<and>
   state (setState \<lparr>history = map (\<lambda>n. Num (int n)) [0..<50], currentIndex = 49\<rparr>
              (Value (Num 50))) = Num 50"
proof -
  let ?h = "\<lparr>history = map (\<lambda>n. Num (int n)) [0..<50], currentIndex = 49\<rparr>"
  have st: "state ?h = Num 49" by (simp add: state_def)
  have "show_int 50 \<noteq> show_int 49" by code_simp
  then have a: "accepted ?h (Value (Num 50))"
    unfolding accepted_def st by (simp add: resolvedState_def)
  have l: "length (history ?h) = 50" "currentIndex ?h = 49" by simp_all
  have r: "resolvedState ?h (Value (Num 50)) = Num 50" by (simp add: resolvedState_def)
  have t: "tl (map (\<lambda>n. Num (int n)) [0..<50]) @ [Num 50] = map (\<lambda>n. Num (int n)) [1..<51]"
    by code_simp
  show ?thesis
    using history_capped_at_50 [of _ _ ?h "Value (Num 50)"] a l r t by simp
qed

text \<open>
  C4, as the code has it. \<open>setState\<close> compares the two serialisations
  (\<open>JSON.stringify(resolvedState) === JSON.stringify(state)\<close>): a candidate whose
  serialisation equals that of the current state, in particular the current state
  itself, is dropped, and the store (history and cursor) is unchanged.
\<close>

theorem setState_same_serialisation_is_noop:
  assumes "JSON_stringify (resolvedState h u) = JSON_stringify (state h)"
  shows "setState h u = h \<and> history (setState h u) = history h \<and>
         currentIndex (setState h u) = currentIndex h \<and>
         setState h (Value (state h)) = h"
  using assms by (simp add: setState_def resolvedState_def)

theorem setState_same_serialisation_is_noop_witness:
  "JSON_stringify (resolvedState (useUndoableState (Obj [(''tasks'', Arr []), (''projects'', Arr [])]))
      (Updater (\<lambda>current. Obj [(''tasks'', Arr []), (''projects'', Arr [])])))
     = JSON_stringify (state (useUndoableState (Obj [(''tasks'', Arr []), (''projects'', Arr [])]))) \<and>
   setState (useUndoableState (Obj [(''tasks'', Arr []), (''projects'', Arr [])]))
      (Updater (\<lambda>current. Obj [(''tasks'', Arr []), (''projects'', Arr [])]))
     = useUndoableState (Obj [(''tasks'', Arr []), (''projects'', Arr [])])"
proof -
  let ?s = "Obj [(''tasks'', Arr []), (''projects'', Arr [])]"
  have e: "JSON_stringify (resolvedState (useUndoableState ?s) (Updater (\<lambda>current. ?s)))
      = JSON_stringify (state (useUndoableState ?s))"
    by (simp add: resolvedState_def state_def useUndoableState_def)
  show ?thesis
    using setState_same_serialisation_is_noop [OF e] e by simp
qed

text \<open>
  C4 as stated fails: the two states below are structurally equal (the same keys with
  the same values, listed in a different order), yet \<open>setState\<close> appends the candidate
  as a second snapshot and moves the cursor to it.
\<close>

theorem setState_key_order_counterexample:
  "deep_equal
     (Obj [(''tasks'', Arr []), (''projects'', Arr []), (''comments'', Obj []), (''activityLog'', Obj [])])
     (state (useUndoableState
       (Obj [(''projects'', Arr []), (''tasks'', Arr []), (''comments'', Obj []), (''activityLog'', Obj [])]))) \<and>
   history (setState
     (useUndoableState
       (Obj [(''projects'', Arr []), (''tasks'', Arr []), (''comments'', Obj []), (''activityLog'', Obj [])]))
     (Value (Obj [(''tasks'', Arr []), (''projects'', Arr []), (''comments'', Obj []), (''activityLog'', Obj [])])))
   = [Obj [(''projects'', Arr []), (''tasks'', Arr []), (''comments'', Obj []), (''activityLog'', Obj [])],
      Obj [(''tasks'', Arr []), (''projects'', Arr []), (''comments'', Obj []), (''activityLog'', Obj [])]] \<and>
   currentIndex (setState
     (useUndoableState
       (Obj [(''projects'', Arr []), (''tasks'', Arr []), (''comments'', Obj []), (''activityLog'', Obj [])]))
     (Value (Obj [(''tasks'', Arr []), (''projects'', Arr []), (''comments'', Obj []), (''activityLog'', Obj [])])))
   = 1"
  by code_simp

subsection \<open>The deletion set is the task and its descendants\<close>

lemma scan_task_fixed: "length (scan_task t s) \<le> length s \<Longrightarrow> scan_task t s = s"
  by (auto simp: scan_task_def set_add_def split: option.splits if_splits)

lemma scan_fixed:
  assumes "length (scan ts s) \<le> length s"
  shows "scan ts s = s \<and> (\<forall>t \<in> set ts. scan_task t s = s)"
  using assms unfolding scan_def
proof (induction ts arbitrary: s)
  case Nil
  then show ?case by simp
next
  case (Cons t ts)
  have "length (scan_task t s) \<le> length (fold scan_task ts (scan_task t s))"
    using scan_grows [of "scan_task t s" ts] by (simp add: scan_def)
  then have "length (scan_task t s) \<le> length s" using Cons.prems by simp
  then have fx: "scan_task t s = s" by (rule scan_task_fixed)
  then show ?case using Cons.IH [of s] Cons.prems by simp
qed

text \<open>What the loop returns holds its start set and is closed under the scanned links.\<close>

definition closed_under_links :: "Task list \<Rightarrow> string list \<Rightarrow> bool" where
  "closed_under_links ts s =
     (\<forall>t \<in> set ts. \<forall>p. parentId t = Some p \<and> p \<noteq> [] \<and> p \<in> set s \<longrightarrow> id' t \<in> set s)"

lemma scan_task_fixed_closed:
  assumes "scan_task t s = s" "parentId t = Some p" "p \<noteq> []" "p \<in> set s"
  shows "id' t \<in> set s"
proof -
  have "scan_task t s = set_add s (id' t)" using assms by (simp add: scan_task_def)
  then have "set_add s (id' t) = s" using assms(1) by simp
  then show ?thesis by (auto simp: set_add_def split: if_splits)
qed

lemma closure_loop_closed:
  "set s \<subseteq> set (closure_loop ts s) \<and> closed_under_links ts (closure_loop ts s)"
proof (induction ts s rule: closure_loop.induct)
  case (1 ts s)
  show ?case
  proof (cases "length (scan ts s) > length s")
    case True
    then have eq: "closure_loop ts s = closure_loop ts (scan ts s)"
      by (subst closure_loop.simps) (simp add: Let_def)
    have "set s \<subseteq> set (scan ts s)" using scan_grows [of s ts] by blast
    then show ?thesis using "1.IH" [OF refl True] eq by auto
  next
    case False
    then have eq: "closure_loop ts s = scan ts s"
      by (subst closure_loop.simps) (simp add: Let_def)
    have fx: "scan ts s = s" "\<forall>t \<in> set ts. scan_task t s = s"
      using scan_fixed [of ts s] False by simp_all
    have "closed_under_links ts s"
      unfolding closed_under_links_def using fx(2) scan_task_fixed_closed by blast
    then show ?thesis using eq fx(1) by simp
  qed
qed

lemma scan_task_sound:
  assumes "set s \<subseteq> insert root (descendants ts root)" "t \<in> set ts"
  shows "set (scan_task t s) \<subseteq> insert root (descendants ts root)"
proof (cases "parentId t")
  case None
  then show ?thesis using assms by (simp add: scan_task_def)
next
  case (Some p)
  show ?thesis
  proof (cases "p \<noteq> [] \<and> p \<in> set s")
    case True
    then have "p = root \<or> p \<in> descendants ts root" using assms(1) by auto
    then have "id' t \<in> descendants ts root"
      using Some assms(2) descendants.child descendants.grandchild by blast
    then show ?thesis using assms(1) set_scan_task [of s t] by auto
  next
    case False
    then show ?thesis using assms Some by (auto simp: scan_task_def)
  qed
qed

lemma fold_scan_task_sound:
  assumes "set s \<subseteq> insert root (descendants ts root)" "set us \<subseteq> set ts"
  shows "set (fold scan_task us s) \<subseteq> insert root (descendants ts root)"
  using assms
proof (induction us arbitrary: s)
  case Nil
  then show ?case by simp
next
  case (Cons u us)
  have "set (scan_task u s) \<subseteq> insert root (descendants ts root)"
    using scan_task_sound [of s root ts u] Cons.prems by simp
  then show ?case using Cons.IH [of "scan_task u s"] Cons.prems by simp
qed

lemma closure_loop_sound:
  "set s \<subseteq> insert root (descendants ts root) \<Longrightarrow>
   set (closure_loop ts s) \<subseteq> insert root (descendants ts root)"
proof (induction ts s rule: closure_loop.induct)
  case (1 ts s)
  have sc: "set (scan ts s) \<subseteq> insert root (descendants ts root)"
    unfolding scan_def using fold_scan_task_sound [OF "1.prems"] by simp
  show ?case
  proof (cases "length (scan ts s) > length s")
    case True
    then have "closure_loop ts s = closure_loop ts (scan ts s)"
      by (subst closure_loop.simps) (simp add: Let_def)
    then show ?thesis using "1.IH" [OF refl True sc] by simp
  next
    case False
    then have "closure_loop ts s = scan ts s"
      by (subst closure_loop.simps) (simp add: Let_def)
    then show ?thesis using sc by simp
  qed
qed

lemma closed_has_descendants:
  assumes cl: "closed_under_links ts s" and root: "root \<in> set s" "root \<noteq> []"
    and ne: "list_all (\<lambda>t. id' t \<noteq> []) ts"
    and d: "x \<in> descendants ts root"
  shows "x \<in> set s \<and> x \<noteq> []"
  using d
proof (induction rule: descendants.induct)
  case (child t)
  then show ?case using cl root ne by (auto simp: closed_under_links_def list_all_iff)
next
  case (grandchild p t)
  then show ?case using cl ne by (auto simp: closed_under_links_def list_all_iff)
qed

lemma closure_loop_is_descendants:
  assumes "list_all (\<lambda>t. id' t \<noteq> []) ts" "root \<noteq> []"
  shows "set (closure_loop ts [root]) = insert root (descendants ts root)"
proof
  show "set (closure_loop ts [root]) \<subseteq> insert root (descendants ts root)"
    by (rule closure_loop_sound) simp
  have c: "set [root] \<subseteq> set (closure_loop ts [root])"
    "closed_under_links ts (closure_loop ts [root])"
    using closure_loop_closed [of "[root]" ts] by simp_all
  then have "root \<in> set (closure_loop ts [root])" by simp
  then show "insert root (descendants ts root) \<subseteq> set (closure_loop ts [root])"
    using closed_has_descendants [OF c(2) _ assms(2) assms(1)] by blast
qed

lemma length_filter_key:
  "distinct (map f xs) \<Longrightarrow> length (filter (\<lambda>t. f t = k) xs) = (if k \<in> f ` set xs then 1 else 0)"
  by (induction xs) auto

lemma length_filter_disj:
  "(\<And>x. x \<in> set xs \<Longrightarrow> \<not> (P x \<and> Q x)) \<Longrightarrow>
   length (filter (\<lambda>x. P x \<or> Q x) xs) = length (filter P xs) + length (filter Q xs)"
  by (induction xs) auto

lemma entries_eq:
  "entries lg pid = (if inherited lg pid then Inl TypeError else Inr (log_of lg pid))"
  by (simp add: entries_def inherited_def log_of_def split: option.splits)

lemma append_log_eq:
  "append_log lg pid e =
     (if inherited lg pid then Inl TypeError else Inr (lg(pid \<mapsto> log_of lg pid @ [e])))"
  by (simp add: append_log_def entries_eq)

lemma handleDeleteTask_found:
  assumes "find (\<lambda>t. id' t = taskId) (tasks s) = Some target"
  shows "handleDeleteTask clk taskId s =
    (if inherited (activityLog s) (projectId target) then Inl TypeError
     else Inr (s\<lparr>tasks := filter (\<lambda>t. id' t \<notin> set (closure_loop (tasks s) [taskId])) (tasks s),
       activityLog := (activityLog s)(projectId target \<mapsto>
         log_of (activityLog s) (projectId target) @
         [createActivityLog clk (projectId target)
            (''deleted task '' @ quoted (title target) @ ''.'')])\<rparr>))"
  using assms by (simp add: handleDeleteTask_def Let_def append_log_eq)

lemma handleDeleteTask_missing:
  assumes "find (\<lambda>t. id' t = taskId) (tasks s) = None"
  shows "handleDeleteTask clk taskId s = Inr s"
  using assms by (simp add: handleDeleteTask_def)

lemma state_after_found:
  assumes "find (\<lambda>t. id' t = taskId) (tasks s) = Some target"
  shows "state_after (handleDeleteTask clk taskId) s =
    (if inherited (activityLog s) (projectId target) then s
     else s\<lparr>tasks := filter (\<lambda>t. id' t \<notin> set (closure_loop (tasks s) [taskId])) (tasks s),
       activityLog := (activityLog s)(projectId target \<mapsto>
         log_of (activityLog s) (projectId target) @
         [createActivityLog clk (projectId target)
            (''deleted task '' @ quoted (title target) @ ''.'')])\<rparr>)"
  by (simp add: state_after_def handleDeleteTask_found [OF assms])

lemma inherited_empty [simp]: "inherited Map.empty pid = (pid \<in> set Object_prototype)"
  by (simp add: inherited_def)

lemma p1_not_inherited [simp]: "''p1'' \<notin> set Object_prototype" "''p2'' \<notin> set Object_prototype"
  by (simp_all add: Object_prototype_def)

text \<open>
  What the delete handler does where its two slips do not come into play: in a state
  whose task ids are non-empty and pairwise different, for a task that is present, is
  not its own descendant and whose project's log lookup is not an inherited member, the
  call returns; it leaves exactly the tasks that are neither the task nor one of its
  transitive descendants, each unchanged and in its place; with N tasks among the
  descendants the list is shorter by N + 1; and the log is the old one with one entry,
  \<open>deleted task "<title>".\<close> for the task itself, appended under the task's project.
\<close>

lemma handleDeleteTask_cascade:
  assumes ne: "list_all (\<lambda>t. id' t \<noteq> []) (tasks s)"
    and dist: "distinct (map id' (tasks s))"
    and found: "find (\<lambda>t. id' t = taskId) (tasks s) = Some target"
    and acyclic: "taskId \<notin> descendants (tasks s) taskId"
    and own: "\<not> inherited (activityLog s) (projectId target)"
  shows "handleDeleteTask clk taskId s = Inr (state_after (handleDeleteTask clk taskId) s) \<and>
         tasks (state_after (handleDeleteTask clk taskId) s) =
           filter (\<lambda>t. id' t \<noteq> taskId \<and> id' t \<notin> descendants (tasks s) taskId) (tasks s) \<and>
         length (tasks s) =
           length (tasks (state_after (handleDeleteTask clk taskId) s)) +
           length (filter (\<lambda>t. id' t \<in> descendants (tasks s) taskId) (tasks s)) + 1 \<and>
         activityLog (state_after (handleDeleteTask clk taskId) s) =
           (activityLog s)(projectId target \<mapsto>
              log_of (activityLog s) (projectId target) @
              [\<lparr>ActivityLog.id' = ''log_'' @ show_nat (now clk), timestamp = iso clk,
                author = ''You'',
                action = ''deleted task '' @ quoted (title target) @ ''.''\<rparr>])"
proof -
  let ?ts = "tasks s" and ?D = "descendants (tasks s) taskId"
  let ?s' = "state_after (handleDeleteTask clk taskId) s"
  have tgt: "target \<in> set ?ts" "id' target = taskId"
    using found by (auto simp: find_Some_iff)
  then have "taskId \<noteq> []" using ne by (auto simp: list_all_iff)
  then have cl: "set (closure_loop ?ts [taskId]) = insert taskId ?D"
    using closure_loop_is_descendants [OF ne] by simp
  have r: "handleDeleteTask clk taskId s = Inr ?s'"
    using own by (simp add: state_after_def handleDeleteTask_found [OF found])
  have t: "tasks ?s' = filter (\<lambda>t. id' t \<noteq> taskId \<and> id' t \<notin> ?D) ?ts"
    unfolding state_after_found [OF found] cl using own by simp
  have "length ?ts = length (filter (\<lambda>t. id' t \<noteq> taskId \<and> id' t \<notin> ?D) ?ts) +
      length (filter (\<lambda>t. \<not> (id' t \<noteq> taskId \<and> id' t \<notin> ?D)) ?ts)"
    by (rule sum_length_filter_compl [symmetric])
  also have "filter (\<lambda>t. \<not> (id' t \<noteq> taskId \<and> id' t \<notin> ?D)) ?ts =
      filter (\<lambda>t. id' t = taskId \<or> id' t \<in> ?D) ?ts"
    by (rule filter_cong) auto
  also have "length \<dots> = length (filter (\<lambda>t. id' t = taskId) ?ts) +
      length (filter (\<lambda>t. id' t \<in> ?D) ?ts)"
    using acyclic by (intro length_filter_disj) auto
  also have "length (filter (\<lambda>t. id' t = taskId) ?ts) = 1"
    using length_filter_key [OF dist, of taskId] tgt by auto
  finally have n: "length ?ts = length (tasks ?s') + length (filter (\<lambda>t. id' t \<in> ?D) ?ts) + 1"
    using t by simp
  have l: "activityLog ?s' =
      (activityLog s)(projectId target \<mapsto>
        log_of (activityLog s) (projectId target) @
        [\<lparr>ActivityLog.id' = ''log_'' @ show_nat (now clk), timestamp = iso clk,
          author = ''You'',
          action = ''deleted task '' @ quoted (title target) @ ''.''\<rparr>])"
    unfolding state_after_found [OF found] using own by (simp add: createActivityLog_def)
  show ?thesis using r t n l by blast
qed

lemma tasks_state_of: "tasks (state_of ps ts) = ts"
  by (simp add: state_of_def)

lemma activityLog_state_of: "activityLog (state_of ps ts) = Map.empty"
  by (simp add: state_of_def)

lemma closure_family_a: "closure_loop family [''a''] = [''a'', ''b'', ''c'', ''e'']"
  unfolding family_def by code_simp

lemma closure_family_b: "closure_loop family [''b''] = [''b'', ''c'']"
  unfolding family_def by code_simp

lemma find_family_a:
  "find (\<lambda>t. id' t = ''a'') (tasks (state_of ps family)) = Some (task_of ''a'' ''p1'' None 0)"
  by (simp add: state_of_def family_def task_of_def)

lemma find_family_b:
  "find (\<lambda>t. id' t = ''b'') (tasks (state_of ps family)) = Some (task_of ''b'' ''p1'' (Some ''a'') 0)"
  by (simp add: state_of_def family_def task_of_def)

lemma descendants_family_a: "descendants family ''a'' = {''b'', ''c'', ''e''}"
proof
  show "descendants family ''a'' \<subseteq> {''b'', ''c'', ''e''}"
  proof
    fix x
    assume "x \<in> descendants family ''a''"
    then show "x \<in> {''b'', ''c'', ''e''}"
      by (induction rule: descendants.induct) (auto simp: family_def task_of_def)
  qed
  have b: "''b'' \<in> descendants family ''a''"
    using descendants.child [of "task_of ''b'' ''p1'' (Some ''a'') 0" family "''a''"]
    by (simp add: family_def task_of_def)
  have e: "''e'' \<in> descendants family ''a''"
    using descendants.child [of "task_of ''e'' ''p1'' (Some ''a'') 1" family "''a''"]
    by (simp add: family_def task_of_def)
  have "''c'' \<in> descendants family ''a''"
    using descendants.grandchild [OF b, of "task_of ''c'' ''p1'' (Some ''b'') 0"]
    by (simp add: family_def task_of_def)
  then show "{''b'', ''c'', ''e''} \<subseteq> descendants family ''a''" using b e by simp
qed

text \<open>Deleting \<open>a\<close> from the five tasks removes \<open>a\<close>, \<open>b\<close>, \<open>c\<close> and \<open>e\<close>, and logs once.\<close>

lemma handleDeleteTask_cascade_example:
  "tasks (state_after (handleDeleteTask noon ''a'') (state_of [project_of ''p1'' 0] family))
     = [task_of ''d'' ''p1'' None 1] \<and>
   length (filter (\<lambda>t. id' t \<in> descendants family ''a'') family) = 3 \<and>
   map action (log_of (activityLog
       (state_after (handleDeleteTask noon ''a'') (state_of [project_of ''p1'' 0] family))) ''p1'')
     = [''deleted task '' @ quoted ''a'' @ ''.'']"
proof -
  let ?s = "state_of [project_of ''p1'' 0] family"
  have h1: "list_all (\<lambda>t. id' t \<noteq> []) (tasks ?s)"
    by (simp add: state_of_def family_def task_of_def)
  have h2: "distinct (map id' (tasks ?s))"
    by (simp add: state_of_def family_def task_of_def)
  have h3: "find (\<lambda>t. id' t = ''a'') (tasks ?s) = Some (task_of ''a'' ''p1'' None 0)"
    by (rule find_family_a)
  have h4: "''a'' \<notin> descendants (tasks ?s) ''a''"
    by (simp add: tasks_state_of descendants_family_a)
  have h5: "\<not> inherited (activityLog ?s) (projectId (task_of ''a'' ''p1'' None 0))"
    by (simp add: activityLog_state_of task_of_def)
  note th = handleDeleteTask_cascade [OF h1 h2 h3 h4 h5, of noon]
  have f: "filter (\<lambda>t. id' t \<noteq> ''a'' \<and> id' t \<notin> {''b'', ''c'', ''e''}) family
      = [task_of ''d'' ''p1'' None 1]"
    by (simp add: family_def task_of_def)
  have n: "length (filter (\<lambda>t. id' t \<in> {''b'', ''c'', ''e''}) family) = 3"
    by (simp add: family_def task_of_def)
  have t: "tasks (state_after (handleDeleteTask noon ''a'') ?s) = [task_of ''d'' ''p1'' None 1]"
    using th f by (simp add: tasks_state_of descendants_family_a)
  have l: "map action (log_of (activityLog (state_after (handleDeleteTask noon ''a'') ?s)) ''p1'')
      = [''deleted task '' @ quoted ''a'' @ ''.'']"
    using th by (simp add: log_of_def state_of_def task_of_def)
  show ?thesis using t n l by (simp add: descendants_family_a)
qed

text \<open>
  C2 at a task whose id is the empty string. The loop tests \<open>task.parentId && ...\<close>, and
  the empty string is falsy: the sub-task \<open>u\<close> of the task with id \<open>""\<close> is a descendant
  of it, the call returns, and \<open>u\<close> is still there.
\<close>

theorem handleDeleteTask_keeps_child_of_empty_id:
  "distinct (map id' (tasks (state_of [project_of ''p1'' 0] unnamed))) \<and>
   find (\<lambda>t. id' t = []) (tasks (state_of [project_of ''p1'' 0] unnamed))
     = Some (task_of [] ''p1'' None 0) \<and>
   ''u'' \<in> descendants (tasks (state_of [project_of ''p1'' 0] unnamed)) [] \<and>
   handleDeleteTask noon [] (state_of [project_of ''p1'' 0] unnamed) \<noteq> Inl TypeError \<and>
   tasks (state_after (handleDeleteTask noon []) (state_of [project_of ''p1'' 0] unnamed))
     = [task_of ''u'' ''p1'' (Some []) 0]"
proof -
  let ?s = "state_of [project_of ''p1'' 0] unnamed"
  have d: "distinct (map id' (tasks ?s))"
    by (simp add: state_of_def unnamed_def task_of_def)
  have f: "find (\<lambda>t. id' t = []) (tasks ?s) = Some (task_of [] ''p1'' None 0)"
    by (simp add: state_of_def unnamed_def task_of_def)
  have u: "''u'' \<in> descendants (tasks ?s) []"
    using descendants.child [of "task_of ''u'' ''p1'' (Some []) 0" unnamed "[]"]
    by (simp add: tasks_state_of unnamed_def task_of_def)
  have cl: "closure_loop unnamed [[]] = [[]]"
    unfolding unnamed_def by code_simp
  have own: "\<not> inherited (activityLog ?s) (projectId (task_of [] ''p1'' None 0))"
    by (simp add: activityLog_state_of task_of_def)
  have r: "handleDeleteTask noon [] ?s \<noteq> Inl TypeError"
    using own by (simp add: handleDeleteTask_found [OF f])
  have t: "tasks (state_after (handleDeleteTask noon []) ?s) = [task_of ''u'' ''p1'' (Some []) 0]"
    unfolding state_after_found [OF f] tasks_state_of cl using own
    by (simp add: unnamed_def task_of_def)
  show ?thesis using d f u r t by simp
qed

text \<open>
  The second slip: a task of a project whose id is \<open>constructor\<close>, with no log yet for
  that project. \<open>log['constructor']\<close> is the inherited function, the spread throws, and
  nothing is deleted.
\<close>

lemma handleDeleteTask_throws_on_inherited_key:
  "handleDeleteTask noon ''t''
     (state_of [project_of ''constructor'' 0] [task_of ''t'' ''constructor'' None 0])
     = Inl TypeError \<and>
   state_after (handleDeleteTask noon ''t'')
     (state_of [project_of ''constructor'' 0] [task_of ''t'' ''constructor'' None 0])
     = state_of [project_of ''constructor'' 0] [task_of ''t'' ''constructor'' None 0]"
proof -
  let ?s = "state_of [project_of ''constructor'' 0] [task_of ''t'' ''constructor'' None 0]"
  have f: "find (\<lambda>t. id' t = ''t'') (tasks ?s) = Some (task_of ''t'' ''constructor'' None 0)"
    by (simp add: state_of_def task_of_def)
  have i: "inherited (activityLog ?s) (projectId (task_of ''t'' ''constructor'' None 0))"
    by (simp add: activityLog_state_of task_of_def Object_prototype_def)
  show ?thesis
    using i by (simp add: state_after_def handleDeleteTask_found [OF f])
qed

text \<open>
  C10. Whether the delete handler returns or throws, the state after it has the projects
  and the comments as they were; its task list is the old list cut down to the surviving
  tasks, and so is every sibling group: a survivor is the very task it was, its \<open>order\<close>
  included, and nothing is renumbered. When no task has the id the state is unchanged;
  otherwise the activity log of every project other than the deleted task's is unchanged.
\<close>

theorem handleDeleteTask_frame:
  "projects (state_after (handleDeleteTask clk taskId) s) = projects s \<and>
   comments (state_after (handleDeleteTask clk taskId) s) = comments s \<and>
   tasks (state_after (handleDeleteTask clk taskId) s) =
     filter (\<lambda>t. t \<in> set (tasks (state_after (handleDeleteTask clk taskId) s))) (tasks s) \<and>
   siblings (tasks (state_after (handleDeleteTask clk taskId) s)) pid par =
     filter (\<lambda>t. t \<in> set (tasks (state_after (handleDeleteTask clk taskId) s)))
       (siblings (tasks s) pid par) \<and>
   (case find (\<lambda>t. id' t = taskId) (tasks s) of
      None \<Rightarrow> handleDeleteTask clk taskId s = Inr s
    | Some target \<Rightarrow>
        \<forall>p. p \<noteq> projectId target \<longrightarrow>
          activityLog (state_after (handleDeleteTask clk taskId) s) p = activityLog s p)"
proof -
  define s' where "s' = state_after (handleDeleteTask clk taskId) s"
  have tk: "\<exists>P. tasks s' = filter P (tasks s)"
  proof (cases "find (\<lambda>t. id' t = taskId) (tasks s)")
    case None
    then have "tasks s' = filter (\<lambda>t. True) (tasks s)"
      by (simp add: s'_def state_after_def handleDeleteTask_missing)
    then show ?thesis by blast
  next
    case (Some target)
    show ?thesis
    proof (cases "inherited (activityLog s) (projectId target)")
      case True
      then have "tasks s' = filter (\<lambda>t. True) (tasks s)"
        by (simp add: s'_def state_after_found [OF Some])
      then show ?thesis by blast
    next
      case False
      then show ?thesis unfolding s'_def state_after_found [OF Some] by auto
    qed
  qed
  then obtain P where P: "tasks s' = filter P (tasks s)" by blast
  have t: "tasks s' = filter (\<lambda>t. t \<in> set (tasks s')) (tasks s)"
    unfolding P by (rule filter_cong) auto
  have g: "siblings (tasks s') pid par = filter (\<lambda>t. t \<in> set (tasks s')) (siblings (tasks s) pid par)"
    unfolding P siblings_def filter_filter by (rule filter_cong) auto
  have pc: "projects s' = projects s \<and> comments s' = comments s"
    by (cases "find (\<lambda>t. id' t = taskId) (tasks s)")
       (simp_all add: s'_def state_after_def handleDeleteTask_missing handleDeleteTask_found)
  have l: "case find (\<lambda>t. id' t = taskId) (tasks s) of
      None \<Rightarrow> handleDeleteTask clk taskId s = Inr s
    | Some target \<Rightarrow> \<forall>p. p \<noteq> projectId target \<longrightarrow> activityLog s' p = activityLog s p"
    by (cases "find (\<lambda>t. id' t = taskId) (tasks s)")
       (simp_all add: s'_def state_after_def handleDeleteTask_missing handleDeleteTask_found)
  show ?thesis using t g pc l unfolding s'_def by blast
qed

text \<open>
  Deleting \<open>b\<close> (with its sub-task \<open>c\<close>) leaves its sibling \<open>e\<close> with the order 1 it had,
  now alone in its group, and does not touch the log of another project.
\<close>

theorem handleDeleteTask_frame_witness:
  "find (\<lambda>t. id' t = ''b'') (tasks (state_of [project_of ''p1'' 0, project_of ''p2'' 1] family))
     = Some (task_of ''b'' ''p1'' (Some ''a'') 0) \<and>
   ''p2'' \<noteq> projectId (task_of ''b'' ''p1'' (Some ''a'') 0) \<and>
   activityLog (state_after (handleDeleteTask noon ''b'')
       (state_of [project_of ''p1'' 0, project_of ''p2'' 1] family)) ''p2''
     = activityLog (state_of [project_of ''p1'' 0, project_of ''p2'' 1] family) ''p2'' \<and>
   projects (state_after (handleDeleteTask noon ''b'')
       (state_of [project_of ''p1'' 0, project_of ''p2'' 1] family))
     = [project_of ''p1'' 0, project_of ''p2'' 1] \<and>
   tasks (state_after (handleDeleteTask noon ''b'')
       (state_of [project_of ''p1'' 0, project_of ''p2'' 1] family))
     = [task_of ''a'' ''p1'' None 0, task_of ''d'' ''p1'' None 1, task_of ''e'' ''p1'' (Some ''a'') 1] \<and>
   siblings (tasks (state_after (handleDeleteTask noon ''b'')
       (state_of [project_of ''p1'' 0, project_of ''p2'' 1] family))) ''p1'' (Some ''a'')
     = [task_of ''e'' ''p1'' (Some ''a'') 1]"
proof -
  let ?s = "state_of [project_of ''p1'' 0, project_of ''p2'' 1] family"
  note f = find_family_b [of "[project_of ''p1'' 0, project_of ''p2'' 1]"]
  have p: "''p2'' \<noteq> projectId (task_of ''b'' ''p1'' (Some ''a'') 0)"
    by (simp add: task_of_def)
  have own: "\<not> inherited (activityLog ?s) (projectId (task_of ''b'' ''p1'' (Some ''a'') 0))"
    by (simp add: activityLog_state_of task_of_def)
  have t: "tasks (state_after (handleDeleteTask noon ''b'') ?s)
      = [task_of ''a'' ''p1'' None 0, task_of ''d'' ''p1'' None 1, task_of ''e'' ''p1'' (Some ''a'') 1]"
    unfolding state_after_found [OF f] tasks_state_of closure_family_b using own
    by (simp add: family_def task_of_def)
  note th = handleDeleteTask_frame [of noon "''b''" ?s "''p1''" "Some ''a''"]
  have l: "activityLog (state_after (handleDeleteTask noon ''b'') ?s) ''p2'' = activityLog ?s ''p2''"
    using th p unfolding f by simp
  have pr: "projects (state_after (handleDeleteTask noon ''b'') ?s)
      = [project_of ''p1'' 0, project_of ''p2'' 1]"
    using th by (simp add: state_of_def)
  have g: "siblings (tasks (state_after (handleDeleteTask noon ''b'') ?s)) ''p1'' (Some ''a'')
      = [task_of ''e'' ''p1'' (Some ''a'') 1]"
    unfolding t by (simp add: siblings_def task_of_def)
  show ?thesis using f p l pr t g by simp
qed

text \<open>
  C1 at the delete handler. The five tasks are densely ordered; deleting \<open>a\<close> returns and
  leaves \<open>d\<close> alone in the top-level group with the order 1 it had, so the group is no
  longer numbered from 0.
\<close>

theorem handleDeleteTask_leaves_gap:
  "dense_orders (tasks (state_of [project_of ''p1'' 0] family)) \<and>
   handleDeleteTask noon ''a'' (state_of [project_of ''p1'' 0] family) \<noteq> Inl TypeError \<and>
   tasks (state_after (handleDeleteTask noon ''a'') (state_of [project_of ''p1'' 0] family))
     = [task_of ''d'' ''p1'' None 1] \<and>
   map order (siblings
       (tasks (state_after (handleDeleteTask noon ''a'') (state_of [project_of ''p1'' 0] family)))
       ''p1'' None) = [1] \<and>
   \<not> dense_orders
       (tasks (state_after (handleDeleteTask noon ''a'') (state_of [project_of ''p1'' 0] family)))"
proof -
  let ?s = "state_of [project_of ''p1'' 0] family"
  have d: "dense_orders (tasks ?s)"
    by (simp add: tasks_state_of family_def dense_orders_def dense_group_def siblings_def task_of_def)
  have own: "\<not> inherited (activityLog ?s) (projectId (task_of ''a'' ''p1'' None 0))"
    by (simp add: activityLog_state_of task_of_def)
  have r: "handleDeleteTask noon ''a'' ?s \<noteq> Inl TypeError"
    using own by (simp add: handleDeleteTask_found [OF find_family_a])
  have t: "tasks (state_after (handleDeleteTask noon ''a'') ?s) = [task_of ''d'' ''p1'' None 1]"
    unfolding state_after_found [OF find_family_a] tasks_state_of closure_family_a using own
    by (simp add: family_def task_of_def)
  have g: "map order (siblings (tasks (state_after (handleDeleteTask noon ''a'') ?s)) ''p1'' None) = [1]"
    unfolding t by (simp add: siblings_def task_of_def)
  have n: "\<not> dense_orders (tasks (state_after (handleDeleteTask noon ''a'') ?s))"
    unfolding t by (simp add: dense_orders_def dense_group_def siblings_def task_of_def)
  show ?thesis using d r t g n by simp
qed

subsection \<open>Reordering\<close>

lemma renumber_three:
  "renumber [x, y, z] = [x\<lparr>order := 0\<rparr>, y\<lparr>order := 1\<rparr>, z\<lparr>order := 2\<rparr>]"
  by (simp add: renumber_def enumerate_simps)

text \<open>
  C7, as the code has it. For a sibling list [T1, T2, T3] listed by order, with three
  different ids, reordering with draggedId = T1, targetId = T3 and position top takes T1
  out and puts it back immediately before T3: the result is [T2, T1, T3], with the
  orders 0, 1, 2 in that sequence.
\<close>

theorem handleReorder_top_inserts_before_target:
  assumes "id' t1 \<noteq> id' t2" "id' t1 \<noteq> id' t3" "id' t2 \<noteq> id' t3"
    and "sorted (map order [t1, t2, t3])"
  shows "handleReorder (id' t1) (id' t3) [t1, t2, t3] Top =
           [t2\<lparr>order := 0\<rparr>, t1\<lparr>order := 1\<rparr>, t3\<lparr>order := 2\<rparr>]"
proof -
  have f: "find (\<lambda>p. id' p = id' t1) [t1, t2, t3] = Some t1" by simp
  have r: "sort_key order (filter (\<lambda>p. id' p \<noteq> id' t1) [t1, t2, t3]) = [t2, t3]"
    using assms by (simp add: insort_key.simps)
  have i: "findIndex (\<lambda>p. id' p = id' t3) [t2, t3] = Some 1"
    using assms by simp
  show ?thesis
    unfolding handleReorder_def f r Let_def i by (simp add: renumber_three)
qed

theorem handleReorder_top_inserts_before_target_witness:
  "id' (task_of ''T1'' ''p1'' None 0) \<noteq> id' (task_of ''T2'' ''p1'' None 1) \<and>
   id' (task_of ''T1'' ''p1'' None 0) \<noteq> id' (task_of ''T3'' ''p1'' None 2) \<and>
   id' (task_of ''T2'' ''p1'' None 1) \<noteq> id' (task_of ''T3'' ''p1'' None 2) \<and>
   sorted (map order [task_of ''T1'' ''p1'' None 0, task_of ''T2'' ''p1'' None 1,
                      task_of ''T3'' ''p1'' None 2]) \<and>
   handleReorder ''T1'' ''T3''
     [task_of ''T1'' ''p1'' None 0, task_of ''T2'' ''p1'' None 1, task_of ''T3'' ''p1'' None 2] Top
   = [task_of ''T2'' ''p1'' None 0, task_of ''T1'' ''p1'' None 1, task_of ''T3'' ''p1'' None 2]"
proof -
  let ?t1 = "task_of ''T1'' ''p1'' None 0" and ?t2 = "task_of ''T2'' ''p1'' None 1"
    and ?t3 = "task_of ''T3'' ''p1'' None 2"
  have h: "id' ?t1 \<noteq> id' ?t2" "id' ?t1 \<noteq> id' ?t3" "id' ?t2 \<noteq> id' ?t3"
    "sorted (map order [?t1, ?t2, ?t3])"
    by (simp_all add: task_of_def)
  have "handleReorder (id' ?t1) (id' ?t3) [?t1, ?t2, ?t3] Top =
      [?t2\<lparr>order := 0\<rparr>, ?t1\<lparr>order := 1\<rparr>, ?t3\<lparr>order := 2\<rparr>]"
    by (rule handleReorder_top_inserts_before_target [OF h])
  then show ?thesis using h by (simp add: task_of_def)
qed

text \<open>
  C7 as stated fails: on [T1, T2, T3] with the orders 0, 1, 2 the ids of the result are
  T2, T1, T3, not T3, T1, T2.
\<close>

theorem handleReorder_top_counterexample:
  "map id' (handleReorder ''T1'' ''T3''
     [task_of ''T1'' ''p1'' None 0, task_of ''T2'' ''p1'' None 1, task_of ''T3'' ''p1'' None 2] Top)
     = [''T2'', ''T1'', ''T3''] \<and>
   map id' (handleReorder ''T1'' ''T3''
     [task_of ''T1'' ''p1'' None 0, task_of ''T2'' ''p1'' None 1, task_of ''T3'' ''p1'' None 2] Top)
     \<noteq> [''T3'', ''T1'', ''T2''] \<and>
   map order (handleReorder ''T1'' ''T3''
     [task_of ''T1'' ''p1'' None 0, task_of ''T2'' ''p1'' None 1, task_of ''T3'' ''p1'' None 2] Top)
     = [0, 1, 2]"
  by (simp add: handleReorder_def task_of_def insort_key.simps renumber_three)

subsection \<open>Moving a task\<close>

lemma length_renumber: "length (renumber xs) = length xs"
  by (simp add: renumber_def)

lemma nth_renumber: "i < length xs \<Longrightarrow> renumber xs ! i = (xs ! i)\<lparr>order := int i\<rparr>"
  by (simp add: renumber_def nth_enumerate_eq)

lemma map_order_renumber: "map order (renumber xs) = map int [0..<length xs]"
  by (rule nth_equalityI) (simp_all add: length_renumber nth_renumber)

lemma map_id_renumber: "map id' (renumber xs) = map id' xs"
  by (rule nth_equalityI) (simp_all add: length_renumber nth_renumber)

lemma sorted_renumber: "sorted (map order (renumber xs))"
  unfolding map_order_renumber by (simp add: sorted_map strict_sorted_iff sorted_wrt_map)

lemma distinct_order_renumber: "distinct (map order (renumber xs))"
  unfolding map_order_renumber by (simp add: distinct_map inj_on_def)

lemma dense_group_renumber: "dense_group (renumber xs)"
  unfolding dense_group_def map_order_renumber length_renumber
  by (rule sorted_sort_id) (simp add: sorted_map sorted_wrt_map)

text \<open>The lookup in the map of renumbered siblings.\<close>

lemma sibling_map_Some:
  assumes "distinct (map id' xs)"
  shows "(map_of (rev (map (\<lambda>t. (id' t, t)) (renumber xs))) k = Some y) =
         (y \<in> set (renumber xs) \<and> id' y = k)"
proof -
  have "map fst (rev (map (\<lambda>t. (id' t, t)) (renumber xs))) = rev (map id' (renumber xs))"
    by (simp add: rev_map comp_def)
  then have "distinct (map fst (rev (map (\<lambda>t. (id' t, t)) (renumber xs))))"
    using assms by (simp only: distinct_rev map_id_renumber)
  then show ?thesis by (subst map_of_eq_Some_iff) auto
qed

lemma sibling_map_nth:
  assumes "distinct (map id' xs)" "i < length xs"
  shows "map_of (rev (map (\<lambda>t. (id' t, t)) (renumber xs))) (id' (xs ! i)) =
         Some ((xs ! i)\<lparr>order := int i\<rparr>)"
proof -
  have "renumber xs ! i \<in> set (renumber xs)"
    using assms(2) by (simp add: length_renumber)
  then show ?thesis
    using assms by (simp add: sibling_map_Some nth_renumber)
qed

lemma sibling_map_None:
  assumes "k \<notin> id' ` set xs"
  shows "map_of (rev (map (\<lambda>t. (id' t, t)) (renumber xs))) k = None"
proof -
  have "set (map id' (renumber xs)) = id' ` set xs"
    unfolding map_id_renumber by simp
  then show ?thesis using assms by (auto simp: map_of_eq_None_iff image_iff)
qed

lemma replaced_nth:
  "distinct (map id' xs) \<Longrightarrow> i < length xs \<Longrightarrow> replaced xs (xs ! i) = (xs ! i)\<lparr>order := int i\<rparr>"
  by (simp add: replaced_def sibling_map_nth)

lemma replaced_other: "id' t \<notin> id' ` set xs \<Longrightarrow> replaced xs t = t"
  by (simp add: replaced_def sibling_map_None)

lemma map_replaced_self:
  assumes "distinct (map id' xs)"
  shows "map (replaced xs) xs = renumber xs"
  by (rule nth_equalityI) (simp_all add: length_renumber nth_renumber replaced_nth assms)

lemma filter_single_key:
  "distinct (map f xs) \<Longrightarrow> k \<in> set xs \<Longrightarrow> filter (\<lambda>x. f k = f x) xs = [k]"
proof (induction xs)
  case Nil
  then show ?case by simp
next
  case (Cons x xs)
  have nx: "f x \<notin> f ` set xs" and dx: "distinct (map f xs)"
    using Cons.prems(1) by simp_all
  show ?case
  proof (cases "k = x")
    case True
    have "filter (\<lambda>y. f x = f y) xs = []"
      unfolding filter_empty_conv using nx by (metis imageI)
    then show ?thesis using True by simp
  next
    case False
    then have kx: "k \<in> set xs" using Cons.prems(2) by simp
    then have "f k \<in> f ` set xs" by (rule imageI)
    then have ne: "f k \<noteq> f x" using nx by auto
    have "filter (\<lambda>x. f k = f x) xs = [k]" by (rule Cons.IH [OF dx kx])
    then show ?thesis using ne by simp
  qed
qed

lemma distinct_ids_sort:
  "distinct (map id' g) \<Longrightarrow> distinct (map id' (sort_key order g))"
  by (simp add: distinct_map)

lemma mset_map_replaced_sort:
  assumes d: "distinct (map id' g)"
  shows "mset (map (replaced (sort_key order g)) g) = mset (renumber (sort_key order g))"
proof -
  have "mset (map (replaced (sort_key order g)) g) =
      image_mset (replaced (sort_key order g)) (mset g)"
    by (simp only: mset_map)
  also have "mset g = mset (sort_key order g)" by (simp only: mset_sort)
  also have "image_mset (replaced (sort_key order g)) (mset (sort_key order g)) =
      mset (map (replaced (sort_key order g)) (sort_key order g))"
    by (simp only: mset_map)
  also have "map (replaced (sort_key order g)) (sort_key order g) = renumber (sort_key order g)"
    by (rule map_replaced_self [OF distinct_ids_sort [OF d]])
  finally show ?thesis .
qed

lemma sort_replaced:
  assumes d: "distinct (map id' g)"
  shows "sort_key order (map (replaced (sort_key order g)) g) = renumber (sort_key order g)"
proof (rule properties_for_sort_key)
  let ?s = "sort_key order g"
  note m = mset_map_replaced_sort [OF d]
  show "mset (renumber ?s) = mset (map (replaced ?s) g)" by (simp only: m)
  show "sorted (map order (renumber ?s))" by (rule sorted_renumber)
  fix k
  assume k: "k \<in> set (renumber ?s)"
  have "mset (map order (map (replaced ?s) g)) = image_mset order (mset (map (replaced ?s) g))"
    by (simp only: mset_map)
  also have "\<dots> = image_mset order (mset (renumber ?s))" by (simp only: m)
  also have "\<dots> = mset (map order (renumber ?s))" by (simp only: mset_map)
  finally have "distinct (map order (map (replaced ?s) g)) = distinct (map order (renumber ?s))"
    by (rule mset_eq_imp_distinct_iff)
  then have dg: "distinct (map order (map (replaced ?s) g))"
    using distinct_order_renumber [of ?s] by (simp only:)
  have "set (map (replaced ?s) g) = set (renumber ?s)" by (rule mset_eq_setD [OF m])
  then have kg: "k \<in> set (map (replaced ?s) g)" using k by (simp only:)
  have a: "filter (\<lambda>x. order k = order x) (renumber ?s) = [k]"
    by (rule filter_single_key [where f = order, OF distinct_order_renumber k])
  have b: "filter (\<lambda>x. order k = order x) (map (replaced ?s) g) = [k]"
    by (rule filter_single_key [where f = order, OF dg kg])
  show "filter (\<lambda>x. order k = order x) (renumber ?s) =
      filter (\<lambda>x. order k = order x) (map (replaced ?s) g)"
    by (simp only: a b)
qed

lemma filter_map_same:
  assumes "\<And>x. x \<in> set xs \<Longrightarrow> P (f x) = P x"
  shows "filter P (map f xs) = map f (filter P xs)"
  using assms by (induction xs) auto

lemma map_idem_on:
  assumes "\<And>x. x \<in> set xs \<Longrightarrow> f x = x"
  shows "map f xs = xs"
  using assms by (induction xs) auto

text \<open>What the replacement does to a task of a list with different ids.\<close>

lemma replaced_in_group:
  assumes d: "distinct (map id' ts)" and t: "t \<in> set ts"
    and g: "set g \<subseteq> set ts" and dg0: "distinct (map id' g)"
  shows "(t \<notin> set g \<longrightarrow> replaced (sort_key order g) t = t) \<and>
         (\<exists>n. replaced (sort_key order g) t = t\<lparr>order := n\<rparr>)"
proof (cases "t \<in> set g")
  case True
  have dg: "distinct (map id' (sort_key order g))"
    using dg0 by (rule distinct_ids_sort)
  from True have "t \<in> set (sort_key order g)" by simp
  then obtain i where i: "i < length (sort_key order g)" "sort_key order g ! i = t"
    unfolding in_set_conv_nth by blast
  have "replaced (sort_key order g) t = t\<lparr>order := int i\<rparr>"
    using replaced_nth [OF dg i(1)] i(2) by simp
  then show ?thesis using True by blast
next
  case False
  have inj: "inj_on id' (set ts)" using d by (simp add: distinct_map)
  have "id' t \<notin> id' ` set g"
  proof
    assume "id' t \<in> id' ` set g"
    then obtain u where u: "u \<in> set g" "id' u = id' t" by auto
    then have "u = t" using inj g t by (auto dest: inj_onD)
    then show False using u False by simp
  qed
  then have r: "replaced (sort_key order g) t = t"
    by (simp add: replaced_other)
  have "t = t\<lparr>order := order t\<rparr>" by simp
  then show ?thesis using r False by metis
qed

lemma handleSaveTask_moved:
  assumes "projectId orig \<noteq> np \<or> parentId orig \<noteq> npar"
  shows "handleSaveTask (EDIT_TASK orig) clk1 clk2 d np npar s =
    (if inherited (activityLog s) (projectId orig) \<or> inherited (activityLog s) np
     then Inl TypeError
     else Inr (s\<lparr>tasks := finalTasks_moved orig d np npar (tasks s),
       activityLog :=
         (if projectId orig \<noteq> np
          then (activityLog s)(np \<mapsto> log_of (activityLog s) np @
                  [createActivityLog clk1 np
                     (''moved task '' @ quoted (TaskData.title d) @ '' into this project.'')])
          else activityLog s)
         (projectId orig \<mapsto> log_of (activityLog s) (projectId orig) @
            [createActivityLog clk2 (projectId orig)
               (''edited task '' @ quoted (TaskData.title d) @ ''.'')])\<rparr>))"
proof -
  have r: "(\<lambda>t. case map_of (rev (map (\<lambda>t. (id' t, t)) (renumber xs))) (id' t) of
             Some t' \<Rightarrow> t' | None \<Rightarrow> t) = replaced xs" for xs
    by (rule ext) (simp add: replaced_def)
  have i: "inherited (lg(q \<mapsto> es)) p = inherited lg p" if "p \<noteq> q" for lg q es p
    using that by (simp add: inherited_def)
  have l: "log_of (lg(q \<mapsto> es)) p = log_of lg p" if "p \<noteq> q" for lg q es p
    using that by (simp add: log_of_def)
  show ?thesis
  proof (cases "projectId orig = np")
    case True
    then show ?thesis
      using assms unfolding handleSaveTask_def Let_def siblings_def r finalTasks_moved_def
      by (simp add: append_log_eq cong: if_cong)
  next
    case False
    then show ?thesis
      using assms unfolding handleSaveTask_def Let_def siblings_def r finalTasks_moved_def
      by (simp add: append_log_eq i l cong: if_cong)
  qed
qed

lemma dense_group_of_mset:
  assumes "mset g = mset (renumber xs)"
  shows "dense_group g"
proof -
  have "length g = length xs"
    using assms by (metis length_renumber size_mset)
  moreover have "mset (map int [0..<length xs]) = mset (map order g)"
    using assms by (metis map_order_renumber mset_map)
  moreover have "sorted (map int [0..<length xs])"
    using sorted_renumber [of xs] by (simp only: map_order_renumber)
  ultimately show ?thesis
    unfolding dense_group_def using properties_for_sort by metis
qed

text \<open>A new member with the greatest key comes last in the sorted list.\<close>

lemma insort_key_snoc:
  "f x \<le> f m \<Longrightarrow> insort_key f x (ys @ [m]) = insort_key f x ys @ [m]"
  by (induction ys) simp_all

lemma sort_key_snoc:
  "\<forall>x\<in>set xs. f x \<le> f m \<Longrightarrow> sort_key f (xs @ [m]) = sort_key f xs @ [m]"
  by (induction xs) (simp_all add: insort_key_snoc)

lemma dense_group_bound:
  assumes "dense_group g" and "t \<in> set g"
  shows "order t < int (length g)"
proof -
  have "order t \<in> set (sort (map order g))" using assms(2) by simp
  then have "order t \<in> set (map int [0..<length g])"
    using assms(1) by (simp only: dense_group_def)
  then show ?thesis by auto
qed

lemma dense_group_snoc:
  assumes "dense_group g" and "order m = int (length g)"
  shows "dense_group (g @ [m])"
proof -
  have "mset (map order g) = mset (map int [0..<length g])"
    using assms(1) unfolding dense_group_def by (metis mset_sort)
  then have "mset (map int [0..<length (g @ [m])]) = mset (map order (g @ [m]))"
    using assms(2) by simp
  moreover have "sorted (map int [0..<k])" for k
    by (simp add: sorted_map strict_sorted_iff sorted_wrt_map)
  then have "sorted (map int [0..<length (g @ [m])])" .
  ultimately show ?thesis
    unfolding dense_group_def by (rule properties_for_sort)
qed

text \<open>The moved branch, group by group (task ids pairwise different).\<close>

lemma moved_groups:
  fixes dat :: TaskData
  assumes d: "distinct (map id' ts)"
    and mv: "projectId orig \<noteq> np \<or> parentId orig \<noteq> npar"
  defines "others \<equiv> filter (\<lambda>t. id' t \<noteq> id' orig) ts"
  defines "oldG \<equiv> siblings others (projectId orig) (parentId orig)"
  defines "ts' \<equiv> finalTasks_moved orig dat np npar ts"
  shows "siblings ts' (projectId orig) (parentId orig) =
           map (replaced (sort_key order oldG)) oldG"
    and "siblings ts' np npar =
           siblings others np npar @
           [(with_data orig dat)\<lparr>projectId := np, parentId := npar,
              order := int (length (siblings others np npar))\<rparr>]"
proof -
  let ?S = "sort_key order oldG"
  have d_others: "distinct (map id' others)"
    unfolding others_def using d by (rule distinct_map_filter)
  have d_old: "distinct (map id' oldG)"
    unfolding oldG_def siblings_def using d_others by (rule distinct_map_filter)
  have sub: "set oldG \<subseteq> set others"
    unfolding oldG_def siblings_def by auto
  note rp = replaced_in_group [OF d_others _ sub d_old]
  have same_pair: "projectId (replaced ?S t) = projectId t \<and> parentId (replaced ?S t) = parentId t"
    if t_in: "t \<in> set others" for t
  proof -
    obtain n where "replaced ?S t = t\<lparr>order := n\<rparr>" using rp [OF t_in] by blast
    then show ?thesis by simp
  qed
  have not_old: "replaced ?S t = t"
    if "t \<in> set others" "\<not> (projectId t = projectId orig \<and> parentId t = parentId orig)" for t
  proof -
    have "t \<notin> set oldG" using that(2) by (auto simp: oldG_def siblings_def)
    then show ?thesis using rp [OF that(1)] by blast
  qed
  have tk: "ts' = map (replaced ?S) others @
      [(with_data orig dat)\<lparr>projectId := np, parentId := npar,
         order := int (length (siblings others np npar))\<rparr>]"
    unfolding ts'_def finalTasks_moved_def others_def oldG_def by simp
  have "siblings (map (replaced ?S) others) (projectId orig) (parentId orig) =
      map (replaced ?S) (siblings others (projectId orig) (parentId orig))"
    unfolding siblings_def by (rule filter_map_same) (simp add: same_pair)
  then show "siblings ts' (projectId orig) (parentId orig) = map (replaced ?S) oldG"
    unfolding tk oldG_def using mv by (auto simp: siblings_def with_data_def)
  have "siblings (map (replaced ?S) others) np npar = map (replaced ?S) (siblings others np npar)"
    unfolding siblings_def by (rule filter_map_same) (simp add: same_pair)
  also have "\<dots> = siblings others np npar"
  proof (rule map_idem_on)
    fix t
    assume "t \<in> set (siblings others np npar)"
    then have "t \<in> set others" "projectId t = np" "parentId t = npar"
      by (auto simp: siblings_def)
    then show "replaced ?S t = t" using not_old [of t] mv by auto
  qed
  finally show "siblings ts' np npar =
      siblings others np npar @
      [(with_data orig dat)\<lparr>projectId := np, parentId := npar,
         order := int (length (siblings others np npar))\<rparr>]"
    unfolding tk by (simp add: siblings_def with_data_def)
qed

text \<open>
  The edit throws when a log lookup resolves to an inherited member, and the state stays
  as it was: moving a task into a project whose id is \<open>constructor\<close> and that has no
  log yet.
\<close>

lemma handleSaveTask_throws_on_inherited_key:
  "handleSaveTask (EDIT_TASK (task_of ''x'' ''p2'' None 0)) noon noon (data_of ''x'')
     ''constructor'' None
     (state_of [project_of ''constructor'' 0, project_of ''p2'' 1] [task_of ''x'' ''p2'' None 0])
     = Inl TypeError"
proof -
  have mv: "projectId (task_of ''x'' ''p2'' None 0) \<noteq> ''constructor'' \<or>
      parentId (task_of ''x'' ''p2'' None 0) \<noteq> None"
    by (simp add: task_of_def)
  show ?thesis
    unfolding handleSaveTask_moved [OF mv]
    by (simp add: activityLog_state_of Object_prototype_def)
qed

text \<open>
  What the move does where its slips do not come into play. In a state whose task ids
  are pairwise different, for an edit whose new project or new parent differs from the
  original task's and whose log lookups (original project, new project) do not resolve
  to inherited members, the updater returns and: the old sibling group, listed by order, is the remaining old
  siblings in their former sequence (ties in list order) with the orders 0, 1, ...,
  n - 1, and nothing but the order of these tasks changes; the moved task is appended to
  the new sibling group, whose other members are untouched, with the order equal to the
  size of that group before; when that group was densely ordered, the moved task is also
  the last of the group listed by order, and the group is densely ordered again; an
  \<open>edited task\<close> entry is appended to the log of the original project; and, when the
  project changed, a \<open>moved task ... into this project\<close> entry is appended to the log
  of the new project.
\<close>

lemma handleSaveTask_move:
  fixes clk1 clk2 :: clock and dat :: TaskData
  assumes d: "distinct (map id' (tasks s))"
    and mv: "projectId orig \<noteq> np \<or> parentId orig \<noteq> npar"
    and own: "\<not> inherited (activityLog s) (projectId orig)"
    and new: "\<not> inherited (activityLog s) np"
  defines "others \<equiv> filter (\<lambda>t. id' t \<noteq> id' orig) (tasks s)"
  defines "s' \<equiv> state_after (handleSaveTask (EDIT_TASK orig) clk1 clk2 dat np npar) s"
  defines "moved \<equiv> (with_data orig dat)\<lparr>projectId := np, parentId := npar,
          order := int (length (siblings others np npar))\<rparr>"
  shows
    "handleSaveTask (EDIT_TASK orig) clk1 clk2 dat np npar s = Inr s' \<and>
     sort_key order (siblings (tasks s') (projectId orig) (parentId orig)) =
       renumber (sort_key order (siblings others (projectId orig) (parentId orig))) \<and>
     map (\<lambda>t. t\<lparr>order := 0\<rparr>) (siblings (tasks s') (projectId orig) (parentId orig)) =
       map (\<lambda>t. t\<lparr>order := 0\<rparr>) (siblings others (projectId orig) (parentId orig)) \<and>
     dense_group (siblings (tasks s') (projectId orig) (parentId orig)) \<and>
     siblings (tasks s') np npar = siblings others np npar @ [moved] \<and>
     (dense_group (siblings others np npar) \<longrightarrow>
        sort_key order (siblings (tasks s') np npar) =
          sort_key order (siblings others np npar) @ [moved] \<and>
        dense_group (siblings (tasks s') np npar)) \<and>
     log_of (activityLog s') (projectId orig) =
       log_of (activityLog s) (projectId orig) @
       [createActivityLog clk2 (projectId orig)
          (''edited task '' @ quoted (TaskData.title dat) @ ''.'')] \<and>
     (projectId orig \<noteq> np \<longrightarrow>
        log_of (activityLog s') np =
          log_of (activityLog s) np @
          [createActivityLog clk1 np
             (''moved task '' @ quoted (TaskData.title dat) @ '' into this project.'')])"
proof -
  let ?G = "siblings others (projectId orig) (parentId orig)"
  let ?N = "siblings others np npar"
  let ?S = "sort_key order ?G"
  let ?G' = "siblings (tasks s') (projectId orig) (parentId orig)"
  have r: "handleSaveTask (EDIT_TASK orig) clk1 clk2 dat np npar s = Inr s'"
    unfolding s'_def state_after_def handleSaveTask_moved [OF mv] using own new by simp
  have tk: "tasks s' = finalTasks_moved orig dat np npar (tasks s)"
    unfolding s'_def state_after_def handleSaveTask_moved [OF mv] using own new by simp
  note grp = moved_groups [OF d mv, of dat, folded others_def tk, folded moved_def]
  have d_others: "distinct (map id' others)"
    unfolding others_def using d by (rule distinct_map_filter)
  have d_old: "distinct (map id' ?G)"
    unfolding siblings_def using d_others by (rule distinct_map_filter)
  have sub: "set ?G \<subseteq> set others" unfolding siblings_def by auto
  have g': "?G' = map (replaced ?S) ?G" by (rule grp(1))
  have c1: "sort_key order ?G' = renumber ?S"
    unfolding g' by (rule sort_replaced [OF d_old])
  have c2: "map (\<lambda>t. t\<lparr>order := 0\<rparr>) ?G' = map (\<lambda>t. t\<lparr>order := 0\<rparr>) ?G"
  proof -
    have "(replaced ?S t)\<lparr>order := 0\<rparr> = t\<lparr>order := 0\<rparr>" if t: "t \<in> set ?G" for t
    proof -
      have "t \<in> set others" using t sub by blast
      then obtain n where "replaced ?S t = t\<lparr>order := n\<rparr>"
        using replaced_in_group [OF d_others _ sub d_old] by blast
      then show ?thesis by simp
    qed
    then show ?thesis unfolding g' by simp
  qed
  have c3: "dense_group ?G'"
    by (rule dense_group_of_mset [of _ ?S])
       (simp only: g' mset_map_replaced_sort [OF d_old])
  have om: "order moved = int (length ?N)" by (simp add: moved_def)
  have c4: "sort_key order (siblings (tasks s') np npar) = sort_key order ?N @ [moved] \<and>
      dense_group (siblings (tasks s') np npar)" if dn: "dense_group ?N"
  proof -
    have "\<forall>t\<in>set ?N. order t \<le> order moved"
      using dense_group_bound [OF dn] om by fastforce
    then have "sort_key order (?N @ [moved]) = sort_key order ?N @ [moved]"
      by (rule sort_key_snoc)
    moreover have "dense_group (?N @ [moved])"
      using dn om by (rule dense_group_snoc)
    ultimately show ?thesis unfolding grp(2) by simp
  qed
  have lg: "activityLog s' =
      (if projectId orig \<noteq> np
       then (activityLog s)(np \<mapsto> log_of (activityLog s) np @
               [createActivityLog clk1 np
                  (''moved task '' @ quoted (TaskData.title dat) @ '' into this project.'')])
       else activityLog s)
      (projectId orig \<mapsto> log_of (activityLog s) (projectId orig) @
         [createActivityLog clk2 (projectId orig)
            (''edited task '' @ quoted (TaskData.title dat) @ ''.'')])"
    unfolding s'_def state_after_def handleSaveTask_moved [OF mv] using own new by simp
  have c5: "log_of (activityLog s') (projectId orig) =
      log_of (activityLog s) (projectId orig) @
      [createActivityLog clk2 (projectId orig)
         (''edited task '' @ quoted (TaskData.title dat) @ ''.'')]"
    unfolding lg by (simp add: log_of_def)
  have c6: "log_of (activityLog s') np =
      log_of (activityLog s) np @
      [createActivityLog clk1 np
         (''moved task '' @ quoted (TaskData.title dat) @ '' into this project.'')]"
    if "projectId orig \<noteq> np"
    unfolding lg using that by (simp add: log_of_def)
  show ?thesis using r c1 c2 c3 grp(2) c4 c5 c6 by blast
qed

text \<open>
  Moving \<open>b\<close> from under \<open>a\<close> in \<open>p1\<close> to the top level of \<open>p2\<close>: its sibling \<open>e\<close> gets
  the order 0, and \<open>b\<close> comes after \<open>x\<close> with the order 1, in the list and by order.
\<close>

lemma handleSaveTask_move_example:
  "distinct (map id' (tasks (state_of [project_of ''p1'' 0, project_of ''p2'' 1]
       (family @ [task_of ''x'' ''p2'' None 0])))) \<and>
   projectId (task_of ''b'' ''p1'' (Some ''a'') 0) \<noteq> ''p2'' \<and>
   \<not> inherited (activityLog (state_of [project_of ''p1'' 0, project_of ''p2'' 1]
       (family @ [task_of ''x'' ''p2'' None 0]))) ''p1'' \<and>
   \<not> inherited (activityLog (state_of [project_of ''p1'' 0, project_of ''p2'' 1]
       (family @ [task_of ''x'' ''p2'' None 0]))) ''p2'' \<and>
   dense_group [task_of ''x'' ''p2'' None 0] \<and>
   handleSaveTask (EDIT_TASK (task_of ''b'' ''p1'' (Some ''a'') 0)) noon noon (data_of ''b2'')
       ''p2'' None
       (state_of [project_of ''p1'' 0, project_of ''p2'' 1] (family @ [task_of ''x'' ''p2'' None 0]))
     \<noteq> Inl TypeError \<and>
   sort_key order (siblings (tasks
       (state_after
          (handleSaveTask (EDIT_TASK (task_of ''b'' ''p1'' (Some ''a'') 0)) noon noon
             (data_of ''b2'') ''p2'' None)
          (state_of [project_of ''p1'' 0, project_of ''p2'' 1] (family @ [task_of ''x'' ''p2'' None 0]))))
       ''p1'' (Some ''a''))
     = [task_of ''e'' ''p1'' (Some ''a'') 0] \<and>
   siblings (tasks
       (state_after
          (handleSaveTask (EDIT_TASK (task_of ''b'' ''p1'' (Some ''a'') 0)) noon noon
             (data_of ''b2'') ''p2'' None)
          (state_of [project_of ''p1'' 0, project_of ''p2'' 1] (family @ [task_of ''x'' ''p2'' None 0]))))
       ''p2'' None
     = [task_of ''x'' ''p2'' None 0,
        (with_data (task_of ''b'' ''p1'' (Some ''a'') 0) (data_of ''b2''))
          \<lparr>projectId := ''p2'', parentId := None, order := 1\<rparr>] \<and>
   sort_key order (siblings (tasks
       (state_after
          (handleSaveTask (EDIT_TASK (task_of ''b'' ''p1'' (Some ''a'') 0)) noon noon
             (data_of ''b2'') ''p2'' None)
          (state_of [project_of ''p1'' 0, project_of ''p2'' 1] (family @ [task_of ''x'' ''p2'' None 0]))))
       ''p2'' None)
     = [task_of ''x'' ''p2'' None 0,
        (with_data (task_of ''b'' ''p1'' (Some ''a'') 0) (data_of ''b2''))
          \<lparr>projectId := ''p2'', parentId := None, order := 1\<rparr>] \<and>
   map action (log_of (activityLog
       (state_after
          (handleSaveTask (EDIT_TASK (task_of ''b'' ''p1'' (Some ''a'') 0)) noon noon
             (data_of ''b2'') ''p2'' None)
          (state_of [project_of ''p1'' 0, project_of ''p2'' 1] (family @ [task_of ''x'' ''p2'' None 0]))))
       ''p1'')
     = [''edited task '' @ quoted ''b2'' @ ''.''] \<and>
   map action (log_of (activityLog
       (state_after
          (handleSaveTask (EDIT_TASK (task_of ''b'' ''p1'' (Some ''a'') 0)) noon noon
             (data_of ''b2'') ''p2'' None)
          (state_of [project_of ''p1'' 0, project_of ''p2'' 1] (family @ [task_of ''x'' ''p2'' None 0]))))
       ''p2'')
     = [''moved task '' @ quoted ''b2'' @ '' into this project.'']"
proof -
  let ?b = "task_of ''b'' ''p1'' (Some ''a'') 0"
  let ?s = "state_of [project_of ''p1'' 0, project_of ''p2'' 1] (family @ [task_of ''x'' ''p2'' None 0])"
  have h1: "distinct (map id' (tasks ?s))"
    by (simp add: state_of_def family_def task_of_def)
  have h2: "projectId ?b \<noteq> ''p2'' \<or> parentId ?b \<noteq> None"
    by (simp add: task_of_def)
  have pb: "projectId ?b = ''p1''" "parentId ?b = Some ''a''" "projectId ?b \<noteq> ''p2''"
    by (simp_all add: task_of_def)
  have h3: "\<not> inherited (activityLog ?s) (projectId ?b)"
    by (simp add: activityLog_state_of pb(1))
  have h4: "\<not> inherited (activityLog ?s) ''p2''"
    by (simp add: activityLog_state_of)
  have dn: "dense_group [task_of ''x'' ''p2'' None 0]"
    by (simp add: dense_group_def task_of_def)
  have old: "siblings (filter (\<lambda>t. id' t \<noteq> id' ?b) (tasks ?s)) ''p1'' (Some ''a'')
      = [task_of ''e'' ''p1'' (Some ''a'') 1]"
    by (simp add: state_of_def family_def task_of_def siblings_def)
  have new: "siblings (filter (\<lambda>t. id' t \<noteq> id' ?b) (tasks ?s)) ''p2'' None
      = [task_of ''x'' ''p2'' None 0]"
    by (simp add: state_of_def family_def task_of_def siblings_def)
  have rn: "renumber [task_of ''e'' ''p1'' (Some ''a'') 1] = [task_of ''e'' ''p1'' (Some ''a'') 0]"
    by (simp add: renumber_def enumerate_simps task_of_def)
  have en: "log_of (activityLog ?s) p = []" for p
    by (simp add: log_of_def state_of_def)
  have ox: "order (task_of ''x'' ''p2'' None 0) = 0"
    by (simp add: task_of_def)
  note th = handleSaveTask_move [OF h1 h2 h3 h4, of noon noon "data_of ''b2''", unfolded pb(1,2)]
  show ?thesis
    using th h1 pb(3) h3 h4 dn
    by (simp add: old new rn en pb(1) ox createActivityLog_def data_of_def)
qed

text \<open>
  C6 after two deletions. From the densely ordered tasks \<open>a\<close>, \<open>b\<close>, \<open>d\<close> of \<open>p1\<close> and
  \<open>x\<close> of \<open>p2\<close>, deleting \<open>a\<close> and \<open>b\<close> leaves \<open>d\<close> with the order 2. Moving \<open>x\<close> to the
  top level of \<open>p1\<close> returns and gives \<open>x\<close> the order 1, the size of that group; \<open>x\<close> is
  appended to the task list, and in the group listed by order it comes before \<open>d\<close>: it
  is not placed last.
\<close>

theorem handleSaveTask_move_not_last_after_deletes:
  "dense_orders trio \<and>
   tasks after_two_deletes = [task_of ''d'' ''p1'' None 2, task_of ''x'' ''p2'' None 0] \<and>
   handleSaveTask (EDIT_TASK (task_of ''x'' ''p2'' None 0)) noon noon (data_of ''x'') ''p1'' None
       after_two_deletes \<noteq> Inl TypeError \<and>
   siblings (tasks (state_after
        (handleSaveTask (EDIT_TASK (task_of ''x'' ''p2'' None 0)) noon noon (data_of ''x'')
           ''p1'' None) after_two_deletes)) ''p1'' None
     = [task_of ''d'' ''p1'' None 2,
        (with_data (task_of ''x'' ''p2'' None 0) (data_of ''x''))
          \<lparr>projectId := ''p1'', parentId := None, order := 1\<rparr>] \<and>
   sort_key order (siblings (tasks (state_after
        (handleSaveTask (EDIT_TASK (task_of ''x'' ''p2'' None 0)) noon noon (data_of ''x'')
           ''p1'' None) after_two_deletes)) ''p1'' None)
     = [(with_data (task_of ''x'' ''p2'' None 0) (data_of ''x''))
          \<lparr>projectId := ''p1'', parentId := None, order := 1\<rparr>,
        task_of ''d'' ''p1'' None 2]"
proof -
  let ?s0 = "state_of [project_of ''p1'' 0, project_of ''p2'' 1] trio"
  let ?s1 = "state_after (handleDeleteTask noon ''a'') ?s0"
  let ?x = "task_of ''x'' ''p2'' None 0"
  have d0: "dense_orders trio"
    by (simp add: trio_def dense_orders_def dense_group_def siblings_def task_of_def)
  have fa: "find (\<lambda>t. id' t = ''a'') (tasks ?s0) = Some (task_of ''a'' ''p1'' None 0)"
    by (simp add: state_of_def trio_def task_of_def)
  have ca: "closure_loop trio [''a''] = [''a'']"
    unfolding trio_def by code_simp
  have s1: "?s1 = ?s0\<lparr>tasks := [task_of ''b'' ''p1'' None 1, task_of ''d'' ''p1'' None 2, ?x],
      activityLog := [''p1'' \<mapsto> [createActivityLog noon ''p1''
         (''deleted task '' @ quoted (title (task_of ''a'' ''p1'' None 0)) @ ''.'')]]\<rparr>"
    unfolding state_after_found [OF fa] tasks_state_of ca
    by (simp add: activityLog_state_of log_of_def trio_def task_of_def)
  have fb: "find (\<lambda>t. id' t = ''b'') (tasks ?s1) = Some (task_of ''b'' ''p1'' None 1)"
    unfolding s1 by (simp add: task_of_def)
  have cb: "closure_loop [task_of ''b'' ''p1'' None 1, task_of ''d'' ''p1'' None 2, ?x] [''b'']
      = [''b'']"
    by code_simp
  have t1: "tasks ?s1 = [task_of ''b'' ''p1'' None 1, task_of ''d'' ''p1'' None 2, ?x]"
    unfolding s1 by simp
  have l1: "activityLog ?s1 ''p1'' \<noteq> None" "activityLog ?s1 ''p2'' = None"
    unfolding s1 by simp_all
  have t2: "tasks after_two_deletes = [task_of ''d'' ''p1'' None 2, ?x]"
    unfolding after_two_deletes_def state_after_found [OF fb] t1 cb
    using l1 by (simp add: inherited_def task_of_def)
  have l2: "\<not> inherited (activityLog after_two_deletes) ''p1''"
      "\<not> inherited (activityLog after_two_deletes) ''p2''"
    by (simp_all add: inherited_def)
  have mv: "projectId ?x \<noteq> ''p1'' \<or> parentId ?x \<noteq> None"
    by (simp add: task_of_def)
  have px: "projectId ?x = ''p2''" by (simp add: task_of_def)
  have r: "handleSaveTask (EDIT_TASK ?x) noon noon (data_of ''x'') ''p1'' None after_two_deletes
      \<noteq> Inl TypeError"
    unfolding handleSaveTask_moved [OF mv] px using l2 by simp
  have t3: "tasks (state_after (handleSaveTask (EDIT_TASK ?x) noon noon (data_of ''x'') ''p1'' None)
        after_two_deletes)
      = [task_of ''d'' ''p1'' None 2,
         (with_data ?x (data_of ''x''))\<lparr>projectId := ''p1'', parentId := None, order := 1\<rparr>]"
    unfolding state_after_def handleSaveTask_moved [OF mv] px using l2
    by (simp add: t2 finalTasks_moved_def siblings_def replaced_def renumber_def task_of_def)
  have g: "siblings (tasks (state_after
        (handleSaveTask (EDIT_TASK ?x) noon noon (data_of ''x'') ''p1'' None) after_two_deletes))
        ''p1'' None
      = [task_of ''d'' ''p1'' None 2,
         (with_data ?x (data_of ''x''))\<lparr>projectId := ''p1'', parentId := None, order := 1\<rparr>]"
    unfolding t3 by (simp add: siblings_def task_of_def with_data_def)
  have so: "sort_key order [task_of ''d'' ''p1'' None 2,
         (with_data ?x (data_of ''x''))\<lparr>projectId := ''p1'', parentId := None, order := 1\<rparr>]
      = [(with_data ?x (data_of ''x''))\<lparr>projectId := ''p1'', parentId := None, order := 1\<rparr>,
         task_of ''d'' ''p1'' None 2]"
    by (simp add: task_of_def with_data_def)
  show ?thesis using d0 t2 r g so by simp
qed

text \<open>In the group listed by order, the last task is \<open>d\<close>, not the moved task.\<close>

theorem handleSaveTask_move_not_last_after_deletes_witness:
  "last (sort_key order (siblings (tasks (state_after
        (handleSaveTask (EDIT_TASK (task_of ''x'' ''p2'' None 0)) noon noon (data_of ''x'')
           ''p1'' None) after_two_deletes)) ''p1'' None))
     = task_of ''d'' ''p1'' None 2 \<and>
   id' (last (sort_key order (siblings (tasks (state_after
        (handleSaveTask (EDIT_TASK (task_of ''x'' ''p2'' None 0)) noon noon (data_of ''x'')
           ''p1'' None) after_two_deletes)) ''p1'' None))) = ''d''"
  using handleSaveTask_move_not_last_after_deletes by (simp add: task_of_def)

subsection \<open>Migration and import\<close>

lemma some_throwing_False:
  "list_all (\<lambda>x. f x = Inr False) xs \<Longrightarrow> some_throwing f xs = Inr False"
  by (induction xs) auto

lemma is_string_defined: "is_string v \<Longrightarrow> v \<noteq> Undefined"
  by (auto simp: is_string_def)

lemma is_object_not_nullish: "is_object v \<Longrightarrow> \<not> nullish v"
  by (auto simp: is_object_def nullish_def)

lemma is_Project_has_color: "is_Project p \<Longrightarrow> lacks ''color'' p = Inr False"
  by (auto simp: is_Project_def lacks_def is_object_not_nullish dest: is_string_defined)

lemma is_Task_has_startDate: "is_Task t \<Longrightarrow> lacks ''startDate'' t = Inr False"
  by (auto simp: is_Task_def lacks_def is_object_not_nullish is_string_or_null_def
           dest: is_string_defined)

lemma is_record_truthy: "is_record_of P v \<Longrightarrow> truthy v"
  by (cases v) (simp_all add: is_record_of_def)

lemma needsMigration_current:
  assumes "is_AppState s"
  shows "needsMigration s = Inr False"
proof -
  obtain ps where ps: "get s ''projects'' = Arr ps" "list_all is_Project ps"
    using assms by (auto simp: is_AppState_def is_array_of_def split: jsval.splits)
  obtain ts where ts: "get s ''tasks'' = Arr ts" "list_all is_Task ts"
    using assms by (auto simp: is_AppState_def is_array_of_def split: jsval.splits)
  have p: "some_throwing (lacks ''color'') ps = Inr False"
    using ps(2) by (intro some_throwing_False) (auto simp: list_all_iff is_Project_has_color)
  have t: "some_throwing (lacks ''startDate'') ts = Inr False"
    using ts(2) by (intro some_throwing_False) (auto simp: list_all_iff is_Task_has_startDate)
  have "\<not> nullish s" "truthy (get s ''comments'')" "truthy (get s ''activityLog'')"
    using assms by (auto simp: is_AppState_def is_object_not_nullish is_record_truthy)
  then show ?thesis
    by (simp add: needsMigration_def js_some_def ps(1) ts(1) p t)
qed

lemma map_of_insert_new:
  assumes "k \<notin> fst ` set (xs @ ys)"
  shows "map_of (xs @ [(k, v)] @ ys) = (map_of (xs @ ys))(k \<mapsto> v)"
proof
  fix a
  have "map_of xs k = None" using assms by (auto simp: map_of_eq_None_iff)
  then show "map_of (xs @ [(k, v)] @ ys) a = ((map_of (xs @ ys))(k \<mapsto> v)) a"
    by (auto simp: map_add_def split: option.splits)
qed

lemma map_of_put: "map_of (put k v kvs) = (map_of kvs)(k \<mapsto> v)"
proof (cases "k \<in> set (map fst kvs)")
  case True
  then show ?thesis by (simp add: put_def update_conv')
next
  case False
  show ?thesis
  proof (cases "array_index k")
    case None
    have "map_of kvs k = None" using False by (simp add: map_of_eq_None_iff)
    then have "map_of (kvs @ [(k, v)]) = (map_of kvs)(k \<mapsto> v)"
      by (auto simp: map_add_def fun_eq_iff split: option.splits)
    then show ?thesis using False None by (simp add: put_def)
  next
    case (Some n)
    have "k \<notin> fst ` set (takeWhile (comes_before n) kvs @ dropWhile (comes_before n) kvs)"
      using False by simp
    then have "map_of (takeWhile (comes_before n) kvs @ [(k, v)] @ dropWhile (comes_before n) kvs)
        = (map_of (takeWhile (comes_before n) kvs @ dropWhile (comes_before n) kvs))(k \<mapsto> v)"
      by (rule map_of_insert_new)
    then show ?thesis using False Some by (simp add: put_def)
  qed
qed

lemma put_same: "map_of kvs k = Some v \<Longrightarrow> put k v kvs = kvs"
proof -
  assume a: "map_of kvs k = Some v"
  then have "k \<in> set (map fst kvs)" by (metis map_of_eq_None_iff option.distinct(1) set_map)
  then show ?thesis using a by (simp add: put_def update_triv)
qed

lemma get_Obj: "get (Obj kvs) k = (case map_of kvs k of Some x \<Rightarrow> x | None \<Rightarrow> Undefined)"
  by (simp add: get_def)

lemma js_or_idem: "js_or (js_or a d) d = js_or a d"
  by (simp add: js_or_def)

lemma truthy_js_or: "truthy d \<Longrightarrow> truthy (js_or a d)"
  by (simp add: js_or_def)

lemma js_or_truthy: "truthy a \<Longrightarrow> js_or a d = a"
  by (simp add: js_or_def)

lemma migrated_project_fixed:
  assumes "migrated_project p = Inr q"
  shows "migrated_project q = Inr q \<and> is_object q \<and> lacks ''color'' q = Inr False"
proof -
  have n: "\<not> nullish p" using assms by (auto simp: migrated_project_def split: if_splits)
  define X where "X =
        put ''links'' (js_or (get p ''links'') (Arr []))
        (put ''goals'' (js_or (get p ''goals'') (Arr []))
        (put ''members'' (js_or (get p ''members'') (Arr []))
        (put ''color'' (js_or (get p ''color'') (Str ''#334155''))
        (put ''isArchived'' (js_or (get p ''isArchived'') (Bool False))
        (put ''priority'' (js_or (get p ''priority'') (Str ''Medium''))
        (spread p))))))"
  have q: "q = Obj X" using assms n by (simp add: migrated_project_def X_def)
  have m: "map_of X ''links'' = Some (js_or (get p ''links'') (Arr []))"
    "map_of X ''goals'' = Some (js_or (get p ''goals'') (Arr []))"
    "map_of X ''members'' = Some (js_or (get p ''members'') (Arr []))"
    "map_of X ''color'' = Some (js_or (get p ''color'') (Str ''#334155''))"
    "map_of X ''isArchived'' = Some (js_or (get p ''isArchived'') (Bool False))"
    "map_of X ''priority'' = Some (js_or (get p ''priority'') (Str ''Medium''))"
    by (simp_all add: X_def map_of_put)
  have g: "get (Obj X) ''links'' = js_or (get p ''links'') (Arr [])"
    "get (Obj X) ''goals'' = js_or (get p ''goals'') (Arr [])"
    "get (Obj X) ''members'' = js_or (get p ''members'') (Arr [])"
    "get (Obj X) ''color'' = js_or (get p ''color'') (Str ''#334155'')"
    "get (Obj X) ''isArchived'' = js_or (get p ''isArchived'') (Bool False)"
    "get (Obj X) ''priority'' = js_or (get p ''priority'') (Str ''Medium'')"
    by (simp_all add: get_Obj m)
  have "migrated_project (Obj X) = Inr (Obj X)"
    by (simp add: migrated_project_def nullish_def g js_or_idem spread_def put_same m)
  moreover have "truthy (get (Obj X) ''color'')"
    unfolding g by (rule truthy_js_or) simp
  then have "lacks ''color'' (Obj X) = Inr False"
    by (auto simp: lacks_def nullish_def)
  ultimately show ?thesis using q by (simp add: is_object_def)
qed

lemma digits_show_nat: "set (show_nat n) \<subseteq> digit_char ` {0..<10}"
proof (induction n rule: show_nat.induct)
  case (1 n)
  show ?case
  proof (cases "n < 10")
    case True
    then show ?thesis by (subst show_nat.simps) auto
  next
    case False
    have "n mod 10 \<in> {0..<10}" by simp
    then have "digit_char (n mod 10) \<in> digit_char ` {0..<10}" by (rule imageI)
    then show ?thesis using False "1.IH" by (subst show_nat.simps) auto
  qed
qed

lemma letter_not_digit: "CHR ''c'' \<notin> digit_char ` {0..<10}"
proof
  assume "CHR ''c'' \<in> digit_char ` {0..<10}"
  then obtain i :: nat where i: "i < 10" "CHR ''c'' = digit_char i" by auto
  have "(of_char (digit_char i) :: nat) = 48 + i"
    using i(1) by (simp add: digit_char_def)
  moreover have "(of_char (CHR ''c'') :: nat) = 99" by simp
  ultimately show False using i by simp
qed

lemma createdAt_not_index: "show_nat i \<noteq> ''createdAt''"
proof
  assume "show_nat i = ''createdAt''"
  then have "CHR ''c'' \<in> set (show_nat i)" by simp
  then show False using digits_show_nat letter_not_digit by blast
qed

lemma keys_spread_index:
  assumes "t = Arr vs \<or> t = Str cs" "k \<in> fst ` set (spread t)"
  shows "\<exists>i. k = show_nat i"
  using assms by (auto simp: spread_def in_set_enumerate_eq)

lemma get_spread_createdAt:
  "get (Obj (spread t)) ''createdAt'' = get t ''createdAt''"
proof -
  have none: "map_of (spread t) ''createdAt'' = None" if arr: "t = Arr vs \<or> t = Str cs" for vs cs
  proof -
    have "''createdAt'' \<notin> fst ` set (spread t)"
    proof
      assume "''createdAt'' \<in> fst ` set (spread t)"
      then obtain i where "''createdAt'' = show_nat i"
        using keys_spread_index [OF arr] by blast
      then show False using createdAt_not_index [of i] by simp
    qed
    then show ?thesis by (simp add: map_of_eq_None_iff)
  qed
  show ?thesis
  proof (cases t)
    case (Arr vs)
    then show ?thesis using none [of vs] by (simp add: get_def)
  next
    case (Str cs)
    then show ?thesis using none [of _ cs] by (simp add: get_def)
  qed (simp_all add: get_def spread_def)
qed

lemma migrated_task_fixed:
  assumes "migrated_task t = Inr u"
  shows "migrated_task u = Inr u \<and> is_object u"
proof -
  have n: "\<not> nullish t" using assms by (auto simp: migrated_task_def split: if_splits)
  define v where "v = js_or (get t ''startDate'') (get t ''createdAt'')"
  define X where "X = put ''startDate'' v (spread t)"
  have u: "u = Obj X" using assms n by (simp add: migrated_task_def X_def v_def)
  have s: "map_of X ''startDate'' = Some v" by (simp add: X_def map_of_put)
  then have gs: "get (Obj X) ''startDate'' = v" by (simp add: get_Obj)
  have "map_of X ''createdAt'' = map_of (spread t) ''createdAt''"
    by (simp add: X_def map_of_put)
  then have "get (Obj X) ''createdAt'' = get (Obj (spread t)) ''createdAt''"
    by (simp add: get_Obj)
  then have gc: "get (Obj X) ''createdAt'' = get t ''createdAt''"
    by (simp add: get_spread_createdAt)
  have "js_or v (get t ''createdAt'') = v" unfolding v_def by (rule js_or_idem)
  then have "migrated_task (Obj X) = Inr (Obj X)"
    by (simp add: migrated_task_def nullish_def gs gc spread_def put_same s)
  then show ?thesis using u by (simp add: is_object_def)
qed

lemma map_throwing_fixed:
  assumes "map_throwing f xs = Inr ys" and "\<And>x y. f x = Inr y \<Longrightarrow> f y = Inr y \<and> P y"
  shows "map_throwing f ys = Inr ys \<and> list_all P ys"
  using assms(1)
proof (induction xs arbitrary: ys)
  case Nil
  then show ?case by simp
next
  case (Cons x xs)
  from Cons.prems obtain y zs where y: "f x = Inr y" and zs: "map_throwing f xs = Inr zs"
    and ys: "ys = y # zs"
    by (auto split: sum.splits)
  have "f y = Inr y \<and> P y" using assms(2) [OF y] .
  then show ?case using Cons.IH [OF zs] ys by simp
qed

lemma some_throwing_total:
  "list_all (\<lambda>x. \<exists>b. f x = Inr b) xs \<Longrightarrow> \<exists>b. some_throwing f xs = Inr b"
  by (induction xs) auto

lemma lacks_object: "is_object x \<Longrightarrow> \<exists>b. lacks k x = Inr b"
  by (simp add: lacks_def is_object_not_nullish)

lemma js_some_objects:
  "list_all is_object xs \<Longrightarrow> \<exists>b. js_some (lacks k) (Arr xs) = Inr b"
  unfolding js_some_def
  by (simp, rule some_throwing_total) (auto simp: list_all_iff lacks_object)

lemma migratedState_fixed:
  assumes "migratedState s = Inr r"
  shows "migratedState r = Inr r \<and> (\<exists>b. needsMigration r = Inr b)"
proof -
  have n: "\<not> nullish s" using assms by (auto simp: migratedState_def split: if_splits)
  obtain ps where ps: "js_map migrated_project (js_or (get s ''projects'') (Arr [])) = Inr ps"
    using assms n by (auto simp: migratedState_def split: sum.splits)
  obtain ts where ts: "js_map migrated_task (js_or (get s ''tasks'') (Arr [])) = Inr ts"
    using assms n ps by (auto simp: migratedState_def split: sum.splits)
  define c where "c = js_or (get s ''comments'') (Obj [])"
  define l where "l = js_or (get s ''activityLog'') (Obj [])"
  have r: "r = Obj [(''projects'', ps), (''tasks'', ts), (''comments'', c), (''activityLog'', l)]"
    using assms n ps ts by (simp add: migratedState_def c_def l_def)
  obtain ps0 ps' where ps': "js_or (get s ''projects'') (Arr []) = Arr ps0"
    "map_throwing migrated_project ps0 = Inr ps'" "ps = Arr ps'"
    using ps by (auto simp: js_map_def split: jsval.splits sum.splits)
  obtain ts0 ts' where ts': "js_or (get s ''tasks'') (Arr []) = Arr ts0"
    "map_throwing migrated_task ts0 = Inr ts'" "ts = Arr ts'"
    using ts by (auto simp: js_map_def split: jsval.splits sum.splits)
  have fp: "map_throwing migrated_project ps' = Inr ps' \<and> list_all is_object ps'"
    using map_throwing_fixed [OF ps'(2), of is_object] migrated_project_fixed by blast
  have ft: "map_throwing migrated_task ts' = Inr ts' \<and> list_all is_object ts'"
    using map_throwing_fixed [OF ts'(2), of is_object] migrated_task_fixed by blast
  have tc: "truthy c" "truthy l" by (simp_all add: c_def l_def truthy_js_or)
  have g: "get r ''projects'' = Arr ps'" "get r ''tasks'' = Arr ts'"
    "get r ''comments'' = c" "get r ''activityLog'' = l" "\<not> nullish r"
    by (simp_all add: r get_def ps'(3) ts'(3) nullish_def)
  have m: "migratedState r = Inr r"
    using fp ft tc
    by (simp add: migratedState_def g js_or_truthy js_map_def)
       (simp add: r ps'(3) ts'(3))
  obtain b1 where b1: "js_some (lacks ''color'') (Arr ps') = Inr b1"
    using js_some_objects fp by blast
  obtain b2 where b2: "js_some (lacks ''startDate'') (Arr ts') = Inr b2"
    using js_some_objects ft by blast
  have "\<exists>b. needsMigration r = Inr b"
    using tc by (auto simp: needsMigration_def g b1 b2)
  then show ?thesis using m by simp
qed

lemma migration_fixed:
  assumes "migration s = Inr r"
  shows "migration r = Inr r"
proof (cases "needsMigration s")
  case (Inl e)
  then show ?thesis using assms by (simp add: migration_def)
next
  case (Inr b)
  show ?thesis
  proof (cases b)
    case True
    then have "migratedState s = Inr r" using assms Inr by (simp add: migration_def)
    then obtain b' where "migratedState r = Inr r" "needsMigration r = Inr b'"
      using migratedState_fixed by blast
    then show ?thesis by (simp add: migration_def)
  next
    case False
    then have "r = s" using assms Inr by (simp add: migration_def)
    then show ?thesis using Inr False by (simp add: migration_def)
  qed
qed

text \<open>
  C9. The migration that runs at load time leaves every state of the current schema as
  it is, also one in which a task's \<open>startDate\<close> is present and \<open>null\<close> (only a field
  that reads \<open>undefined\<close> triggers it); and running it on its own result changes
  nothing more, whatever the input (an input on which it throws included).
\<close>

theorem migration_identity_and_idempotent:
  "(is_AppState s \<longrightarrow> migration s = Inr s) \<and>
   (case migration s of Inl e \<Rightarrow> Inl e | Inr r \<Rightarrow> migration r) = migration s"
proof
  show "is_AppState s \<longrightarrow> migration s = Inr s"
    by (simp add: migration_def needsMigration_current)
  show "(case migration s of Inl e \<Rightarrow> Inl e | Inr r \<Rightarrow> migration r) = migration s"
    by (cases "migration s") (simp_all add: migration_fixed)
qed

text \<open>
  The example state of the current schema, whose task has a \<open>null\<close> start date, is
  left as it is; the state with the blank colour is changed by the first run and not by
  a second.
\<close>

theorem migration_identity_and_idempotent_witness:
  "is_AppState current_example \<and>
   get (hd (case get current_example ''tasks'' of Arr ts \<Rightarrow> ts | _ \<Rightarrow> [])) ''startDate'' = Null \<and>
   migration current_example = Inr current_example \<and>
   migration blank_color \<noteq> Inr blank_color \<and>
   (case migration blank_color of Inl e \<Rightarrow> Inl e | Inr r \<Rightarrow> migration r) = migration blank_color"
proof -
  have a: "is_AppState current_example" unfolding current_example_def by code_simp
  have b: "get (hd (case get current_example ''tasks'' of Arr ts \<Rightarrow> ts | _ \<Rightarrow> [])) ''startDate'' = Null"
    unfolding current_example_def by code_simp
  have c: "migration blank_color \<noteq> Inr blank_color" unfolding blank_color_def by code_simp
  show ?thesis
    using migration_identity_and_idempotent [of current_example]
      migration_identity_and_idempotent [of blank_color] a b c by simp
qed

text \<open>
  It is the test \<open>needsMigration\<close> that keeps a \<open>null\<close> start date: the transform
  itself, and the import, replace it by the creation date.
\<close>

lemma null_startDate_rewritten_without_the_test:
  "is_AppState current_example \<and>
   needsMigration current_example = Inr False \<and>
   migratedState current_example \<noteq> Inr current_example \<and>
   handleImportData current_example \<noteq> Inr current_example"
  unfolding current_example_def by code_simp

lemma sorted_clearjunk_unique:
  assumes "map_of xs = map_of ys"
  shows "sort_key fst (AList.clearjunk xs) = sort_key fst (AList.clearjunk ys)"
proof (rule map_sorted_distinct_set_unique [where f = fst])
  let ?a = "AList.clearjunk xs" and ?b = "AList.clearjunk ys"
  have da: "distinct (map fst ?a)" and db: "distinct (map fst ?b)" by simp_all
  have "map_of ?a = map_of ?b" using assms by (simp add: map_of_clearjunk)
  then have st: "set ?a = set ?b" using da db by (simp add: map_of_inject_set)
  show "set (sort_key fst ?a) = set (sort_key fst ?b)" using st by simp
  show "sorted (map fst (sort_key fst ?a))" "sorted (map fst (sort_key fst ?b))" by simp_all
  have "inj_on fst (set ?a)" using da by (simp add: distinct_map)
  then show "inj_on fst (set (sort_key fst ?a) \<union> set (sort_key fst ?b))" using st by simp
  show "distinct (map fst (sort_key fst ?a))" using da by (simp add: distinct_map)
  show "distinct (map fst (sort_key fst ?b))" using db by (simp add: distinct_map)
qed

lemma canon_Obj_cong:
  assumes "map_of xs = map_of ys"
  shows "canon (Obj xs) = canon (Obj ys)"
proof -
  have h: "map_of (map (map_prod id canon) zs) = map_option canon \<circ> map_of zs" for zs
    by (induction zs) (auto simp: fun_eq_iff)
  have "map_of (map (map_prod id canon) xs) = map_of (map (map_prod id canon) ys)"
    by (simp only: h assms)
  then have "sort_key fst (AList.clearjunk (map (map_prod id canon) xs)) =
      sort_key fst (AList.clearjunk (map (map_prod id canon) ys))"
    by (rule sorted_clearjunk_unique)
  then show ?thesis by simp
qed

lemma map_of_spread_into:
  assumes "distinct (map fst kvs)"
  shows "map_of (foldl (\<lambda>acc (k, x). put k x acc) acc kvs) = map_of acc ++ map_of kvs"
  using assms
proof (induction kvs arbitrary: acc)
  case Nil
  then show ?case by simp
next
  case (Cons kv kvs)
  obtain k v where kv: "kv = (k, v)" by (cases kv)
  have nk: "map_of kvs k = None" using Cons.prems kv by (auto simp: map_of_eq_None_iff)
  have d: "distinct (map fst kvs)" using Cons.prems by simp
  have "foldl (\<lambda>acc (k, x). put k x acc) acc (kv # kvs) =
      foldl (\<lambda>acc (k, x). put k x acc) (put k v acc) kvs"
    by (simp add: kv)
  also have "map_of \<dots> = map_of (put k v acc) ++ map_of kvs"
    by (rule Cons.IH [OF d])
  also have "\<dots> = map_of acc ++ map_of (kv # kvs)"
  proof
    fix a
    show "(map_of (put k v acc) ++ map_of kvs) a = (map_of acc ++ map_of (kv # kvs)) a"
      using nk by (cases "a = k") (auto simp: kv map_of_put map_add_def split: option.splits)
  qed
  finally show ?case .
qed

lemma settled_js_or:
  assumes "settled kvs k \<or> (map_of kvs k = Some d)"
  shows "js_or (get (Obj kvs) k) d = (case map_of kvs k of None \<Rightarrow> d | Some v \<Rightarrow> v)"
  using assms by (auto simp: settled_def get_Obj js_or_def split: option.splits)

lemma settled_project_agree:
  assumes "settled_project p"
  shows "\<exists>a b. migrated_project p = Inr a \<and> imported_project p = Inr b \<and> canon a = canon b"
proof -
  obtain kvs where p: "p = Obj kvs" using assms by (cases p) (simp_all add: settled_project_def)
  have d: "distinct (map fst kvs)"
    and s: "settled kvs ''priority''"
      "settled kvs ''isArchived'' \<or> map_of kvs ''isArchived'' = Some (Bool False)"
      "settled kvs ''color''" "settled kvs ''members''" "settled kvs ''goals''"
      "settled kvs ''links''"
    using assms [unfolded settled_project_def p jsval.case] by blast+
  define X where "X =
        put ''links'' (js_or (get p ''links'') (Arr []))
        (put ''goals'' (js_or (get p ''goals'') (Arr []))
        (put ''members'' (js_or (get p ''members'') (Arr []))
        (put ''color'' (js_or (get p ''color'') (Str ''#334155''))
        (put ''isArchived'' (js_or (get p ''isArchived'') (Bool False))
        (put ''priority'' (js_or (get p ''priority'') (Str ''Medium''))
        (spread p))))))"
  define D where "D = [(''priority'', Str ''Medium''), (''isArchived'', Bool False),
        (''color'', Str ''#334155''), (''members'', Arr []), (''goals'', Arr []),
        (''links'', Arr [])]"
  define Y where "Y = spread_into D p"
  have a: "migrated_project p = Inr (Obj X)"
    by (simp add: migrated_project_def p nullish_def X_def)
  have b: "imported_project p = Inr (Obj Y)"
    by (simp add: imported_project_def Y_def D_def)
  have v: "js_or (get p ''priority'') (Str ''Medium'') =
        (case map_of kvs ''priority'' of None \<Rightarrow> Str ''Medium'' | Some v \<Rightarrow> v)"
      "js_or (get p ''isArchived'') (Bool False) =
        (case map_of kvs ''isArchived'' of None \<Rightarrow> Bool False | Some v \<Rightarrow> v)"
      "js_or (get p ''color'') (Str ''#334155'') =
        (case map_of kvs ''color'' of None \<Rightarrow> Str ''#334155'' | Some v \<Rightarrow> v)"
      "js_or (get p ''members'') (Arr []) =
        (case map_of kvs ''members'' of None \<Rightarrow> Arr [] | Some v \<Rightarrow> v)"
      "js_or (get p ''goals'') (Arr []) =
        (case map_of kvs ''goals'' of None \<Rightarrow> Arr [] | Some v \<Rightarrow> v)"
      "js_or (get p ''links'') (Arr []) =
        (case map_of kvs ''links'' of None \<Rightarrow> Arr [] | Some v \<Rightarrow> v)"
    unfolding p using s by (simp_all add: settled_js_or)
  have mx: "map_of X = (map_of kvs)
      (''priority'' \<mapsto> (case map_of kvs ''priority'' of None \<Rightarrow> Str ''Medium'' | Some v \<Rightarrow> v),
       ''isArchived'' \<mapsto> (case map_of kvs ''isArchived'' of None \<Rightarrow> Bool False | Some v \<Rightarrow> v),
       ''color'' \<mapsto> (case map_of kvs ''color'' of None \<Rightarrow> Str ''#334155'' | Some v \<Rightarrow> v),
       ''members'' \<mapsto> (case map_of kvs ''members'' of None \<Rightarrow> Arr [] | Some v \<Rightarrow> v),
       ''goals'' \<mapsto> (case map_of kvs ''goals'' of None \<Rightarrow> Arr [] | Some v \<Rightarrow> v),
       ''links'' \<mapsto> (case map_of kvs ''links'' of None \<Rightarrow> Arr [] | Some v \<Rightarrow> v))"
    unfolding X_def v by (simp add: map_of_put p spread_def)
  have my: "map_of Y = map_of D ++ map_of kvs"
    unfolding Y_def spread_into_def p using d by (simp add: spread_def map_of_spread_into)
  have "map_of X k = map_of Y k" for k
    unfolding mx my by (simp add: D_def map_add_def split: option.splits)
  then have "map_of X = map_of Y" by (rule ext)
  then have "canon (Obj X) = canon (Obj Y)" by (rule canon_Obj_cong)
  then show ?thesis using a b by blast
qed

lemma settled_projects_agree:
  assumes "list_all settled_project ps"
  shows "\<exists>as bs. map_throwing migrated_project ps = Inr as \<and>
           map_throwing imported_project ps = Inr bs \<and> map canon as = map canon bs"
  using assms
proof (induction ps)
  case Nil
  then show ?case by simp
next
  case (Cons p ps)
  obtain a b where ab: "migrated_project p = Inr a" "imported_project p = Inr b" "canon a = canon b"
    using settled_project_agree [of p] Cons.prems by auto
  obtain as bs where abs: "map_throwing migrated_project ps = Inr as"
    "map_throwing imported_project ps = Inr bs" "map canon as = map canon bs"
    using Cons.IH Cons.prems by auto
  show ?case using ab abs by simp
qed

text \<open>
  Where the two paths do agree. On raw data whose project entries are objects with each
  of priority, isArchived, color, members, goals and links absent or truthy (isArchived
  may be \<open>false\<close>), the migrated state and the imported state are structurally equal up
  to the order of object keys (or both throw); so are the state after the load-time
  migration and the imported state when migration is needed.
\<close>

lemma migration_and_import_agree_on_settled:
  assumes "settled_projects raw"
  shows "same_result (migratedState raw) (handleImportData raw) \<and>
         (needsMigration raw = Inr True \<longrightarrow> same_result (migration raw) (handleImportData raw))"
proof -
  have main: "same_result (migratedState raw) (handleImportData raw)"
  proof (cases "nullish raw")
    case True
    then show ?thesis by (simp add: migratedState_def handleImportData_def same_result_def)
  next
    case False
    show ?thesis
    proof (cases "js_or (get raw ''projects'') (Arr [])")
      case (Arr ps)
      then have "list_all settled_project ps" using assms by (simp add: settled_projects_def)
      then obtain as bs where ab: "map_throwing migrated_project ps = Inr as"
        "map_throwing imported_project ps = Inr bs" "map canon as = map canon bs"
        using settled_projects_agree by blast
      show ?thesis
      proof (cases "js_map migrated_task (js_or (get raw ''tasks'') (Arr []))")
        case (Inl e)
        then show ?thesis
          using False Arr ab
          by (simp add: migratedState_def handleImportData_def same_result_def js_map_def)
      next
        case (Inr ts)
        then show ?thesis
          using False Arr ab
          by (simp add: migratedState_def handleImportData_def same_result_def js_map_def
                deep_equal_def)
      qed
    qed (simp_all add: False migratedState_def handleImportData_def same_result_def js_map_def)
  qed
  then show ?thesis by (simp add: migration_def)
qed


text \<open>
  The export of an old version (a project with \<open>isArchived\<close> and none of the other five
  fields, a task without a start date, no comments and no log): migration is needed, and
  both paths give the same state up to the order of the object keys, which differs.
\<close>

lemma migration_and_import_agree_example:
  "settled_projects old_export \<and> needsMigration old_export = Inr True \<and>
   same_result (migratedState old_export) (handleImportData old_export) \<and>
   same_result (migration old_export) (handleImportData old_export) \<and>
   migration old_export \<noteq> handleImportData old_export"
proof -
  have a: "settled_projects old_export" unfolding old_export_def by code_simp
  have b: "needsMigration old_export = Inr True" unfolding old_export_def by code_simp
  have c: "migration old_export \<noteq> handleImportData old_export"
    unfolding old_export_def by code_simp
  show ?thesis
    using migration_and_import_agree_on_settled [OF a] a b c by simp
qed

text \<open>
  C8 at a project whose colour is the empty string and that lacks the other five fields.
  Migration is needed; \<open>p.color || '#334155'\<close> gives the default colour, while
  \<open>{ color: '#334155', ...p }\<close> keeps the empty string: the two states differ in a
  value, not only in the order of keys.
\<close>

theorem migration_and_import_differ_on_blank_color:
  "needsMigration blank_color = Inr True \<and>
   migratedState blank_color = migration blank_color \<and>
   migration blank_color =
     Inr (Obj [(''projects'', Arr [Obj
                 [(''id'', Str ''p1''), (''color'', Str ''#334155''),
                  (''priority'', Str ''Medium''), (''isArchived'', Bool False),
                  (''members'', Arr []), (''goals'', Arr []), (''links'', Arr [])]]),
               (''tasks'', Arr []), (''comments'', Obj []), (''activityLog'', Obj [])]) \<and>
   handleImportData blank_color =
     Inr (Obj [(''projects'', Arr [Obj
                 [(''priority'', Str ''Medium''), (''isArchived'', Bool False),
                  (''color'', Str []), (''members'', Arr []), (''goals'', Arr []),
                  (''links'', Arr []), (''id'', Str ''p1'')]]),
               (''tasks'', Arr []), (''comments'', Obj []), (''activityLog'', Obj [])]) \<and>
   \<not> same_result (migration blank_color) (handleImportData blank_color)"
  unfolding blank_color_def by code_simp

end
